theory Spec2Isabelle
  imports Main
begin

section \<open>C strings and the library functions the plugin calls\<close>

text \<open>
  A \<open>char *\<close> that points into an allocated buffer is modelled by the buffer's
  contents (a \<open>char list\<close>, the terminating NUL included) and an offset.  A
  \<open>const char *\<close> argument is modelled by the characters it points to; what C reads
  from it ends at the first NUL (\<open>c_str\<close>).
\<close>

abbreviation NUL :: char where "NUL \<equiv> CHR 0x00"
abbreviation CR :: char where "CR \<equiv> CHR 0x0D"
abbreviation LF :: char where "LF \<equiv> CHR 0x0A"

definition c_str :: "char list \<Rightarrow> string" where
  "c_str m = takeWhile (\<lambda>c. c \<noteq> NUL) m"

text \<open>What undefined behaviour of the C code is reported as.\<close>

datatype fault = NullPointer | OutOfBounds

text \<open>\<open>g_strdup\<close>: a fresh buffer holding a copy of the string and its terminator.\<close>

definition g_strdup :: "string \<Rightarrow> char list" where
  "g_strdup s = c_str s @ [NUL]"

text \<open>
  \<open>strpbrk(s, accept)\<close> on the memory starting at \<open>s\<close>: the offset of the first
  character before the terminator that occurs in \<open>accept\<close>, \<open>None\<close> for C's NULL.
  Running off the buffer without meeting a terminator is a fault.
\<close>

fun strpbrk :: "char list \<Rightarrow> string \<Rightarrow> fault + nat option" where
  "strpbrk [] accept = Inl OutOfBounds"
| "strpbrk (c # cs) accept =
     (if c = NUL then Inr None
      else if c \<in> set accept then Inr (Some 0)
      else (case strpbrk cs accept of
              Inl e \<Rightarrow> Inl e
            | Inr None \<Rightarrow> Inr None
            | Inr (Some k) \<Rightarrow> Inr (Some (Suc k))))"

fun strlen :: "char list \<Rightarrow> fault + nat" where
  "strlen [] = Inl OutOfBounds"
| "strlen (c # cs) =
     (if c = NUL then Inr 0
      else (case strlen cs of Inl e \<Rightarrow> Inl e | Inr n \<Rightarrow> Inr (Suc n)))"

text \<open>
  Modelled from the spec: the glib functions \<open>g_ascii_tolower\<close>,
  \<open>g_ascii_strcasecmp\<close>, \<open>g_path_is_absolute\<close> and \<open>g_path_get_basename\<close> are not
  among the sources.  The spec asks for a case-insensitive comparison of the tag name,
  for an absolute local path and for the base name (no directory) of the path; the
  definitions follow glib's behaviour on POSIX systems, where the directory separator
  is the slash.
\<close>

definition g_ascii_tolower :: "char \<Rightarrow> char" where
  "g_ascii_tolower c =
     (let n = (of_char c :: nat) in if 65 \<le> n \<and> n \<le> 90 then char_of (n + 32) else c)"

fun g_ascii_strcasecmp :: "string \<Rightarrow> string \<Rightarrow> int" where
  "g_ascii_strcasecmp (a # as) (b # bs) =
     (if a \<noteq> NUL \<and> b \<noteq> NUL then
        (if g_ascii_tolower a \<noteq> g_ascii_tolower b
         then int (of_char (g_ascii_tolower a)) - int (of_char (g_ascii_tolower b))
         else g_ascii_strcasecmp as bs)
      else int (of_char a) - int (of_char b))"
| "g_ascii_strcasecmp [] (b # bs) = - int (of_char b)"
| "g_ascii_strcasecmp (a # as) [] = int (of_char a)"
| "g_ascii_strcasecmp [] [] = 0"

definition g_path_is_absolute :: "string \<Rightarrow> bool" where
  "g_path_is_absolute file_name =
     (case file_name of [] \<Rightarrow> False | c # _ \<Rightarrow> c = CHR ''/'')"

definition g_path_get_basename :: "string \<Rightarrow> string" where
  "g_path_get_basename file_name =
     (let s = c_str file_name in
      if s = [] then ''.''
      else (let t = dropWhile (\<lambda>c. c = CHR ''/'') (rev s) in
            if t = [] then ''/''
            else rev (takeWhile (\<lambda>c. c \<noteq> CHR ''/'') t)))"

section \<open>Songs and the CUE parser\<close>

text \<open>
  Modelled from the spec: \<open>Song.hxx\<close> is not among the sources.  A track record has a
  source-reference field, here \<open>uri\<close>; its other fields are passed through untouched
  (the record's extension).  \<open>Song::ReplaceURI\<close> replaces the source reference.
\<close>

record Song =
  uri :: string

definition ReplaceURI :: "'a Song_scheme \<Rightarrow> string \<Rightarrow> 'a Song_scheme" where
  "ReplaceURI song new_uri = song\<lparr>uri := c_str new_uri\<rparr>"

text \<open>
  \<open>cue/CueParser.cxx\<close> is not among the sources either, and the plugin does not depend
  on the grammar: the parser is a parameter, a state type \<open>'p\<close> with the four operations
  the plugin calls.  \<open>Get\<close> may change the parser's state (it takes the completed
  track out of the parser).
\<close>

record ('p, 'a) CueParser =
  New :: 'p
  Feed :: "string \<Rightarrow> 'p \<Rightarrow> 'p"
  Get :: "'p \<Rightarrow> 'a Song_scheme option \<times> 'p"
  Finish :: "'p \<Rightarrow> 'p"

text \<open>
  To observe which parser operations a call makes, a parser is wrapped into one that
  behaves the same and also keeps the list of the calls it received, oldest first.
\<close>

datatype parser_call = CallFeed string | CallGet | CallFinish

definition traced :: "('p, 'a) CueParser \<Rightarrow> (parser_call list \<times> 'p, 'a) CueParser" where
  "traced P =
     \<lparr>New = ([], New P),
      Feed = (\<lambda>line (t, p). (t @ [CallFeed line], Feed P line p)),
      Get = (\<lambda>(t, p). case Get P p of (song, p') \<Rightarrow> (song, (t @ [CallGet], p'))),
      Finish = (\<lambda>(t, p). (t @ [CallFinish], Finish P p))\<rparr>"

fun fed_lines :: "parser_call list \<Rightarrow> string list" where
  "fed_lines [] = []"
| "fed_lines (CallFeed l # cs) = l # fed_lines cs"
| "fed_lines (_ # cs) = fed_lines cs"

section \<open>The playlist provider\<close>

text \<open>
  \<open>struct EmbeddedCuePlaylist\<close>.  The three owned pointers are null after
  construction, hence options; \<open>next_p\<close> is the offset of \<open>next\<close> within the
  \<open>cuesheet\<close> buffer (the constructor leaves \<open>next\<close> uninitialised; it is not read
  before \<open>embcue_playlist_open_uri\<close> assigns it).
\<close>

record 'p EmbeddedCuePlaylist =
  filename :: "string option"
  cuesheet :: "char list option"
  next_p :: nat
  parser :: "'p option"

definition EmbeddedCuePlaylist_new :: "'p EmbeddedCuePlaylist" where
  "EmbeddedCuePlaylist_new = \<lparr>filename = None, cuesheet = None, next_p = 0, parser = None\<rparr>"

definition embcue_tag_pair ::
  "string \<Rightarrow> string \<Rightarrow> 'p EmbeddedCuePlaylist \<Rightarrow> 'p EmbeddedCuePlaylist" where
  "embcue_tag_pair name val playlist =
     (if cuesheet playlist = None \<and> g_ascii_strcasecmp name ''cuesheet'' = 0
      then playlist\<lparr>cuesheet := Some (g_strdup val)\<rparr>
      else playlist)"

text \<open>
  The three tag scanners (\<open>TagFile\<close>, \<open>ApeTag\<close>, \<open>TagId3\<close>) are external: each
  visits the (name, value) pairs stored in the file and calls the handler's \<open>pair\<close>
  callback on each of them in turn.  A scanner is given by the pairs it finds in a file.
\<close>

record tag_scanners =
  tag_file_scan :: "string \<Rightarrow> (string \<times> string) list"
  tag_ape_scan2 :: "string \<Rightarrow> (string \<times> string) list"
  tag_id3_scan :: "string \<Rightarrow> (string \<times> string) list"

definition scan_pairs ::
  "(string \<times> string) list \<Rightarrow> 'p EmbeddedCuePlaylist \<Rightarrow> 'p EmbeddedCuePlaylist" where
  "scan_pairs pairs playlist = fold (\<lambda>(name, val). embcue_tag_pair name val) pairs playlist"

datatype tag_scan = TagFileScan | TagApeScan | TagId3Scan

text \<open>
  \<open>embcue_playlist_open_uri\<close>.  The result is the provider (\<open>None\<close> for NULL) and the
  scanners that were run, in the order of the calls.
\<close>

definition embcue_playlist_open_uri ::
  "tag_scanners \<Rightarrow> ('p, 'a) CueParser \<Rightarrow> string \<Rightarrow>
     'p EmbeddedCuePlaylist option \<times> tag_scan list" where
  "embcue_playlist_open_uri S P uri_arg =
     (if \<not> g_path_is_absolute uri_arg then (None, [])
      else
        (let playlist0 = scan_pairs (tag_file_scan S uri_arg) EmbeddedCuePlaylist_new;
             (playlist, scans) =
               (if cuesheet playlist0 = None then
                  (let playlist1 = scan_pairs (tag_ape_scan2 S uri_arg) playlist0 in
                   if cuesheet playlist1 = None
                   then (scan_pairs (tag_id3_scan S uri_arg) playlist1,
                         [TagFileScan, TagApeScan, TagId3Scan])
                   else (playlist1, [TagFileScan, TagApeScan]))
                else (playlist0, [TagFileScan]))
         in if cuesheet playlist = None then (None, scans)
            else (Some (playlist\<lparr>filename := Some (g_path_get_basename uri_arg),
                                 next_p := 0,
                                 parser := Some (New P)\<rparr>), scans)))"

text \<open>
  \<open>EmbeddedCuePlaylist::Read\<close>, from the loop on: the part after the loop
  (\<open>Read_finish\<close>), the loop (\<open>Read_loop\<close>) and the whole function (\<open>Read\<close>).  The
  loop works on the members it uses: \<open>filename\<close>, the \<open>cuesheet\<close> buffer, \<open>next\<close>
  and the parser.  A result is the returned song (\<open>None\<close> for NULL) with the members'
  new values.
\<close>

definition Read_finish ::
  "('p, 'a) CueParser \<Rightarrow> string option \<Rightarrow> char list \<Rightarrow> nat \<Rightarrow> 'p \<Rightarrow>
     fault + ('a Song_scheme option \<times> char list \<times> nat \<times> 'p)" where
  "Read_finish P fname buf nxt p =
     (let p1 = Finish P p in
      case Get P p1 of
        (Some song, p2) \<Rightarrow>
          (case fname of
             None \<Rightarrow> Inl NullPointer
           | Some f \<Rightarrow> Inr (Some (ReplaceURI song f), buf, nxt, p2))
      | (None, p2) \<Rightarrow> Inr (None, buf, nxt, p2))"

function Read_loop ::
  "('p, 'a) CueParser \<Rightarrow> string option \<Rightarrow> char list \<Rightarrow> nat \<Rightarrow> 'p \<Rightarrow>
     fault + ('a Song_scheme option \<times> char list \<times> nat \<times> 'p)" where
  "Read_loop P fname buf nxt p =
     (if length buf \<le> nxt then Inl OutOfBounds
      else if buf ! nxt = NUL then Read_finish P fname buf nxt p
      else
        (case strpbrk (drop nxt buf) [CR, LF] of
           Inl e \<Rightarrow> Inl e
         | Inr eol \<Rightarrow>
             (case (case eol of
                      Some k \<Rightarrow> Inr (buf[nxt + k := NUL], nxt + k + 1)
                    | None \<Rightarrow>
                        (case strlen (drop nxt buf) of
                           Inl e \<Rightarrow> Inl e
                         | Inr n \<Rightarrow> Inr (buf, nxt + n))) of
                Inl e \<Rightarrow> Inl e
              | Inr (buf', nxt') \<Rightarrow>
                  (let p1 = Feed P (c_str (drop nxt buf')) p in
                   case Get P p1 of
                     (Some song, p2) \<Rightarrow>
                       (case fname of
                          None \<Rightarrow> Inl NullPointer
                        | Some f \<Rightarrow> Inr (Some (ReplaceURI song f), buf', nxt', p2))
                   | (None, p2) \<Rightarrow> Read_loop P fname buf' nxt' p2))))"
  by pat_completeness auto
termination
proof (relation "measure (\<lambda>(P, fname, buf, nxt, p). length buf - nxt)", goal_cases)
  case 1
  show ?case by simp
next
  case (2 P fname buf nxt p eol x2 buf' nxt' p1 xa p2)
  from 2(1,2) obtain c cs where dr: "drop nxt buf = c # cs" and c: "c \<noteq> NUL"
    by (cases "drop nxt buf") (auto simp: hd_drop_conv_nth dest: arg_cong [where f = hd])
  from 2(4,5) dr c have "nxt < nxt' \<and> length buf' = length buf"
    by (auto split: option.splits sum.splits)
  with 2(1) show ?case
    by (simp add: diff_less_mono2)
qed

declare Read_loop.simps [simp del]

definition Read ::
  "('p, 'a) CueParser \<Rightarrow> 'p EmbeddedCuePlaylist \<Rightarrow>
     fault + ('a Song_scheme option \<times> 'p EmbeddedCuePlaylist)" where
  "Read P playlist =
     (case parser playlist of
        None \<Rightarrow> Inl NullPointer
      | Some p \<Rightarrow>
          (case Get P p of
             (Some song, p') \<Rightarrow> Inr (Some song, playlist\<lparr>parser := Some p'\<rparr>)
           | (None, p') \<Rightarrow>
               (case cuesheet playlist of
                  None \<Rightarrow> Inl NullPointer
                | Some buf \<Rightarrow>
                    (case Read_loop P (filename playlist) buf (next_p playlist) p' of
                       Inl e \<Rightarrow> Inl e
                     | Inr (song, buf', nxt', p'') \<Rightarrow>
                         Inr (song, playlist\<lparr>cuesheet := Some buf',
                                             next_p := nxt',
                                             parser := Some p''\<rparr>)))))"

text \<open>
  The caller's successive \<open>read\<close> calls on one provider: the songs returned by \<open>n\<close>
  calls, in order, and the provider after the last call.
\<close>

fun reads ::
  "('p, 'a) CueParser \<Rightarrow> nat \<Rightarrow> 'p EmbeddedCuePlaylist \<Rightarrow>
     fault + ('a Song_scheme option list \<times> 'p EmbeddedCuePlaylist)" where
  "reads P 0 playlist = Inr ([], playlist)"
| "reads P (Suc n) playlist =
     (case Read P playlist of
        Inl e \<Rightarrow> Inl e
      | Inr (song, playlist') \<Rightarrow>
          (case reads P n playlist' of
             Inl e \<Rightarrow> Inl e
           | Inr (songs, playlist'') \<Rightarrow> Inr (song # songs, playlist'')))"

section \<open>Notions used to state the properties\<close>

text \<open>
  A provider as \<open>embcue_playlist_open_uri\<close> returns it and \<open>Read\<close> keeps it: the three
  pointers are set, the buffer ends with its terminator and \<open>next\<close> points into it.
\<close>

definition provider_ok :: "'p EmbeddedCuePlaylist \<Rightarrow> bool" where
  "provider_ok playlist =
     (case (filename playlist, cuesheet playlist, parser playlist) of
        (Some f, Some buf, Some p) \<Rightarrow> next_p playlist < length buf \<and> last buf = NUL
      | _ \<Rightarrow> False)"

text \<open>The text not yet consumed: the C string that \<open>next\<close> points to.\<close>

definition unconsumed :: "'p EmbeddedCuePlaylist \<Rightarrow> string" where
  "unconsumed playlist =
     (case cuesheet playlist of None \<Rightarrow> [] | Some buf \<Rightarrow> c_str (drop (next_p playlist) buf))"

text \<open>The calls a traced parser of a provider has received.\<close>

definition calls :: "(parser_call list \<times> 'p) EmbeddedCuePlaylist \<Rightarrow> parser_call list" where
  "calls playlist = (case parser playlist of None \<Rightarrow> [] | Some (t, p) \<Rightarrow> t)"

text \<open>
  The value of the first pair whose name equals "CUESHEET" when case is ignored, as the
  spec describes the tag selector.
\<close>

definition is_cuesheet_name :: "string \<Rightarrow> bool" where
  "is_cuesheet_name name = (map g_ascii_tolower (c_str name) = ''cuesheet'')"

definition cuesheet_tag :: "(string \<times> string) list \<Rightarrow> string option" where
  "cuesheet_tag pairs = map_option snd (find (\<lambda>(name, val). is_cuesheet_name name) pairs)"

text \<open>The provider that a successful open returns for a captured tag value.\<close>

definition opened :: "('p, 'a) CueParser \<Rightarrow> string \<Rightarrow> string \<Rightarrow> 'p EmbeddedCuePlaylist" where
  "opened P uri_arg val =
     \<lparr>filename = Some (g_path_get_basename uri_arg),
      cuesheet = Some (g_strdup val),
      next_p = 0,
      parser = Some (New P)\<rparr>"

text \<open>
  The lines of a text as the spec describes them: the text is cut at every line
  terminator, the terminator is dropped, and a last line without terminator counts.
  Here every single carriage return or line feed is a terminator.
\<close>

definition is_eol :: "char \<Rightarrow> bool" where
  "is_eol c = (c = CR \<or> c = LF)"

function split_lines :: "string \<Rightarrow> string list" where
  "split_lines t =
     (if t = [] then []
      else takeWhile (\<lambda>c. \<not> is_eol c) t #
           split_lines (drop 1 (dropWhile (\<lambda>c. \<not> is_eol c) t)))"
  by pat_completeness auto
termination
proof (relation "measure length", goal_cases)
  case 1
  show ?case by simp
next
  case (2 t)
  have "length (dropWhile (\<lambda>c. \<not> is_eol c) t) \<le> length t"
    by (rule length_dropWhile_le)
  with 2 show ?case
    by (cases t) auto
qed

declare split_lines.simps [simp del]

text \<open>
  One iteration of the loop of \<open>Read\<close> on a terminated buffer, in closed form: the
  line it feeds, the buffer and the value of \<open>next\<close> it leaves.
\<close>

definition iter_line :: "char list \<Rightarrow> nat \<Rightarrow> string" where
  "iter_line buf nxt = takeWhile (\<lambda>c. \<not> is_eol c) (c_str (drop nxt buf))"

definition iter_buf :: "char list \<Rightarrow> nat \<Rightarrow> char list" where
  "iter_buf buf nxt =
     (if length (iter_line buf nxt) < length (c_str (drop nxt buf))
      then buf[nxt + length (iter_line buf nxt) := NUL] else buf)"

definition iter_next :: "char list \<Rightarrow> nat \<Rightarrow> nat" where
  "iter_next buf nxt =
     (if length (iter_line buf nxt) < length (c_str (drop nxt buf))
      then nxt + length (iter_line buf nxt) + 1 else nxt + length (iter_line buf nxt))"

text \<open>
  How a run of the loop may change the buffer and \<open>next\<close>: the length and the
  terminator stay, \<open>next\<close> moves forward within the text it pointed to, the text
  from the new \<open>next\<close> on is untouched, and a character that differs was a line
  terminator in the consumed part, now NUL.
\<close>

definition consumed :: "char list \<Rightarrow> nat \<Rightarrow> char list \<Rightarrow> nat \<Rightarrow> bool" where
  "consumed buf nxt buf' nxt' \<longleftrightarrow>
     length buf' = length buf \<and> last buf' = NUL \<and> nxt \<le> nxt' \<and> nxt' < length buf' \<and>
     nxt' \<le> nxt + length (c_str (drop nxt buf)) \<and>
     c_str (drop nxt' buf') = drop (nxt' - nxt) (c_str (drop nxt buf)) \<and>
     drop nxt' buf' = drop nxt' buf \<and>
     (\<forall>i. buf' ! i \<noteq> buf ! i \<longrightarrow> nxt \<le> i \<and> i < nxt' \<and> is_eol (buf ! i) \<and> buf' ! i = NUL)"

text \<open>
  A parser that keeps its end of input, as one with an end flag does: once a \<open>Get\<close>
  right after \<open>Finish\<close> has yielded nothing the parser is in a state of \<open>I\<close>,
  and in such a state \<open>Get\<close> yields nothing and \<open>Get\<close> and \<open>Finish\<close> lead to
  such a state again.
\<close>

definition keeps_end_of_input :: "('p, 'a) CueParser \<Rightarrow> ('p \<Rightarrow> bool) \<Rightarrow> bool" where
  "keeps_end_of_input P I \<longleftrightarrow>
     (\<forall>q q'. Get P (Finish P q) = (None, q') \<longrightarrow> I q') \<and>
     (\<forall>q. I q \<longrightarrow> fst (Get P q) = None \<and> I (snd (Get P q)) \<and> I (Finish P q))"

text \<open>The same text with every line feed preceded by a carriage return.\<close>

definition to_crlf :: "string \<Rightarrow> string" where
  "to_crlf t = concat (map (\<lambda>c. if c = LF then [CR, LF] else [c]) t)"

section \<open>A parser and tag scanners to run the provider on\<close>

text \<open>
  Modelled from the spec: \<open>cue/CueParser.cxx\<close> is not among the sources.  The spec
  describes the parser engine as consuming one line at a time, making a completed track
  available for retrieval after zero or more feeds, and flushing pending tracks on
  finalize; \<open>Read\<close> drains such a backlog before it feeds more lines.
  \<open>sample_parser\<close> is one such engine, with a toy grammar: a line \<open>FILE name\<close> sets
  the file that later tracks refer to, a line \<open>TRACK t\<close> starts a track, other lines
  are skipped.  A track is completed when the next one starts; a completed track is
  held back (\<open>previous\<close>) until one more is completed or the input is finalized.
\<close>

record CueSong = Song +
  track :: string

record sample_state =
  cur_file :: string
  current :: "CueSong option"
  previous :: "CueSong option"
  finished :: "CueSong option"
  ended :: bool

definition sample_Commit :: "sample_state \<Rightarrow> sample_state" where
  "sample_Commit s =
     (if current s = None then s
      else s\<lparr>finished := previous s, previous := current s, current := None\<rparr>)"

definition sample_Feed :: "string \<Rightarrow> sample_state \<Rightarrow> sample_state" where
  "sample_Feed line s =
     (if take 5 line = ''FILE '' then (sample_Commit s)\<lparr>cur_file := drop 5 line\<rparr>
      else if take 6 line = ''TRACK '' then
        (sample_Commit s)\<lparr>current := Some \<lparr>uri = cur_file s, track = drop 6 line\<rparr>\<rparr>
      else s)"

definition sample_Finish :: "sample_state \<Rightarrow> sample_state" where
  "sample_Finish s = (if ended s then s else (sample_Commit s)\<lparr>ended := True\<rparr>)"

definition sample_Get :: "sample_state \<Rightarrow> CueSong option \<times> sample_state" where
  "sample_Get s =
     (let s' = (if finished s = None \<and> ended s
                then s\<lparr>finished := previous s, previous := None\<rparr> else s)
      in (finished s', s'\<lparr>finished := None\<rparr>))"

definition sample_parser :: "(sample_state, unit CueSong_ext) CueParser" where
  "sample_parser =
     \<lparr>New = \<lparr>cur_file = [], current = None, previous = None, finished = None,
              ended = False\<rparr>,
      Feed = sample_Feed, Get = sample_Get, Finish = sample_Finish\<rparr>"

text \<open>Scanners that find the same pairs in every file.\<close>

definition fixed_scanners ::
  "(string \<times> string) list \<Rightarrow> (string \<times> string) list \<Rightarrow> (string \<times> string) list \<Rightarrow>
     tag_scanners" where
  "fixed_scanners a b c =
     \<lparr>tag_file_scan = (\<lambda>u. a), tag_ape_scan2 = (\<lambda>u. b), tag_id3_scan = (\<lambda>u. c)\<rparr>"

text \<open>A CUE sheet of two tracks, with all three styles of line ending.\<close>

definition sample_sheet :: string where
  "sample_sheet = ''FILE cd.wav'' @ [LF] @ ''TRACK 01'' @ [CR, LF] @ ''TRACK 02'' @ [LF] @ ''REM end''"

text \<open>
  The provider after the first \<open>read\<close> on \<open>sample_sheet\<close> with the traced
  \<open>sample_parser\<close>: the whole text is consumed and the parser still holds the
  second track.
\<close>

definition sample_held :: "(parser_call list \<times> sample_state) EmbeddedCuePlaylist" where
  "sample_held =
     \<lparr>filename = Some ''album.flac'',
      cuesheet = Some (''FILE cd.wav'' @ [NUL] @ ''TRACK 01'' @ [NUL, NUL] @ ''TRACK 02'' @ [NUL]
                       @ ''REM end'' @ [NUL]),
      next_p = 38,
      parser = Some ([CallGet, CallFeed ''FILE cd.wav'', CallGet, CallFeed ''TRACK 01'', CallGet,
                      CallFeed [], CallGet, CallFeed ''TRACK 02'', CallGet, CallFeed ''REM end'',
                      CallGet, CallFinish, CallGet],
                     \<lparr>cur_file = ''cd.wav'', current = None,
                      previous = Some \<lparr>uri = ''cd.wav'', track = ''02''\<rparr>,
                      finished = None, ended = True\<rparr>)\<rparr>"

section \<open>The tag selector and the open sequence\<close>

lemma of_char_eq_0_iff: "(of_char c :: nat) = 0 \<longleftrightarrow> c = NUL"
  using of_char_eq_iff [of c NUL, where ?'a = nat] by simp

lemma g_ascii_strcasecmp_eq_0_iff:
  "g_ascii_strcasecmp a b = 0 \<longleftrightarrow>
     map g_ascii_tolower (c_str a) = map g_ascii_tolower (c_str b)"
proof (induction a b rule: g_ascii_strcasecmp.induct)
  case (1 a as b bs)
  then show ?case
    by (auto simp: c_str_def of_char_eq_0_iff)
next
  case (2 b bs)
  then show ?case by (auto simp: c_str_def of_char_eq_0_iff)
next
  case (3 a as)
  then show ?case by (auto simp: c_str_def of_char_eq_0_iff)
next
  case 4
  then show ?case by (simp add: c_str_def)
qed

lemma strcasecmp_cuesheet:
  "g_ascii_strcasecmp name ''cuesheet'' = 0 \<longleftrightarrow> is_cuesheet_name name"
  by (simp add: g_ascii_strcasecmp_eq_0_iff is_cuesheet_name_def c_str_def g_ascii_tolower_def)

lemma embcue_tag_pair_captured:
  "cuesheet playlist \<noteq> None \<Longrightarrow> embcue_tag_pair name val playlist = playlist"
  by (simp add: embcue_tag_pair_def)

lemma scan_pairs_captured:
  "cuesheet playlist \<noteq> None \<Longrightarrow> scan_pairs pairs playlist = playlist"
  by (induction pairs) (simp_all add: scan_pairs_def embcue_tag_pair_captured split: prod.splits)

lemma scan_pairs_eq:
  "cuesheet playlist = None \<Longrightarrow>
   scan_pairs pairs playlist =
     (case cuesheet_tag pairs of
        None \<Rightarrow> playlist
      | Some val \<Rightarrow> playlist\<lparr>cuesheet := Some (g_strdup val)\<rparr>)"
proof (induction pairs)
  case Nil
  then show ?case by (simp add: scan_pairs_def cuesheet_tag_def)
next
  case (Cons a pairs)
  obtain name val where a: "a = (name, val)" by (cases a)
  show ?case
  proof (cases "is_cuesheet_name name")
    case True
    have "scan_pairs (a # pairs) playlist
            = scan_pairs pairs (embcue_tag_pair name val playlist)"
      by (simp add: scan_pairs_def a)
    also have "embcue_tag_pair name val playlist = playlist\<lparr>cuesheet := Some (g_strdup val)\<rparr>"
      using True Cons.prems by (simp add: embcue_tag_pair_def strcasecmp_cuesheet)
    also have "scan_pairs pairs \<dots> = playlist\<lparr>cuesheet := Some (g_strdup val)\<rparr>"
      by (rule scan_pairs_captured) simp
    finally show ?thesis using True by (simp add: cuesheet_tag_def a)
  next
    case False
    have "scan_pairs (a # pairs) playlist
            = scan_pairs pairs (embcue_tag_pair name val playlist)"
      by (simp add: scan_pairs_def a)
    also have "embcue_tag_pair name val playlist = playlist"
      using False by (simp add: embcue_tag_pair_def strcasecmp_cuesheet)
    finally show ?thesis using False Cons by (simp add: cuesheet_tag_def a)
  qed
qed

lemma scan_pairs_new:
  "scan_pairs pairs EmbeddedCuePlaylist_new =
     (case cuesheet_tag pairs of
        None \<Rightarrow> EmbeddedCuePlaylist_new
      | Some val \<Rightarrow> EmbeddedCuePlaylist_new\<lparr>cuesheet := Some (g_strdup val)\<rparr>)"
  by (rule scan_pairs_eq) (simp add: EmbeddedCuePlaylist_new_def)

lemma open_uri_eq:
  "embcue_playlist_open_uri S P u =
     (if \<not> g_path_is_absolute u then (None, [])
      else case cuesheet_tag (tag_file_scan S u) of
        Some val \<Rightarrow> (Some (opened P u val), [TagFileScan])
      | None \<Rightarrow>
         (case cuesheet_tag (tag_ape_scan2 S u) of
            Some val \<Rightarrow> (Some (opened P u val), [TagFileScan, TagApeScan])
          | None \<Rightarrow>
             (case cuesheet_tag (tag_id3_scan S u) of
                Some val \<Rightarrow> (Some (opened P u val), [TagFileScan, TagApeScan, TagId3Scan])
              | None \<Rightarrow> (None, [TagFileScan, TagApeScan, TagId3Scan]))))"
  by (simp add: embcue_playlist_open_uri_def scan_pairs_new scan_pairs_eq
      EmbeddedCuePlaylist_new_def opened_def Let_def split: option.splits)

section \<open>One iteration of the loop\<close>

lemma c_str_Cons: "c_str (c # cs) = (if c = NUL then [] else c # c_str cs)"
  by (simp add: c_str_def)

lemma c_str_Nil: "c_str [] = []"
  by (simp add: c_str_def)

lemma strpbrk_terminated:
  "NUL \<in> set m \<Longrightarrow>
   strpbrk m [CR, LF] =
     Inr (if length (takeWhile (\<lambda>c. \<not> is_eol c) (c_str m)) < length (c_str m)
          then Some (length (takeWhile (\<lambda>c. \<not> is_eol c) (c_str m))) else None)"
  by (induction m) (auto simp: c_str_Cons c_str_Nil is_eol_def)

lemma strlen_terminated: "NUL \<in> set m \<Longrightarrow> strlen m = Inr (length (c_str m))"
  by (induction m) (auto simp: c_str_Cons c_str_Nil)

lemma terminated_drop:
  assumes "nxt < length buf" "last buf = NUL"
  shows "NUL \<in> set (drop nxt buf)"
proof -
  from assms have "drop nxt buf \<noteq> []" by simp
  moreover from assms have "last (drop nxt buf) = NUL" by simp
  ultimately show ?thesis by (metis last_in_set)
qed

lemma c_str_length_less: "NUL \<in> set m \<Longrightarrow> length (c_str m) < length m"
  by (induction m) (auto simp: c_str_Cons c_str_Nil)

lemma c_str_update: "k < length (c_str m) \<Longrightarrow> c_str (m[k := NUL]) = take k (c_str m)"
proof (induction m arbitrary: k)
  case Nil
  then show ?case by (simp add: c_str_Nil)
next
  case (Cons c m)
  then show ?case
    by (cases k) (auto simp: c_str_Cons split: if_splits)
qed

lemma c_str_drop: "k \<le> length (c_str m) \<Longrightarrow> c_str (drop k m) = drop k (c_str m)"
proof (induction m arbitrary: k)
  case Nil
  then show ?case by (simp add: c_str_Nil)
next
  case (Cons c m)
  then show ?case
    by (cases k) (auto simp: c_str_Cons split: if_splits)
qed

lemma c_str_g_strdup: "c_str (g_strdup v) = c_str v"
  unfolding g_strdup_def c_str_def
  by (induction v) auto

lemma split_lines_Nil: "split_lines [] = []"
  by (simp add: split_lines.simps)

lemma split_lines_nonempty:
  "t \<noteq> [] \<Longrightarrow>
   split_lines t = takeWhile (\<lambda>c. \<not> is_eol c) t #
     split_lines (drop (Suc (length (takeWhile (\<lambda>c. \<not> is_eol c) t))) t)"
  by (subst split_lines.simps) (simp add: dropWhile_eq_drop)


lemma Read_loop_at_end:
  "nxt < length buf \<Longrightarrow> buf ! nxt = NUL \<Longrightarrow>
   Read_loop Q fname buf nxt q = Read_finish Q fname buf nxt q"
  by (subst Read_loop.simps) simp

lemma takeWhile_length_eq: "length (takeWhile P xs) = length xs \<Longrightarrow> takeWhile P xs = xs"
  by (metis takeWhile_eq_take take_all order_refl)

lemma Read_loop_step:
  assumes "nxt < length buf" "last buf = NUL" "buf ! nxt \<noteq> NUL"
  shows "Read_loop Q fname buf nxt q =
     (case Get Q (Feed Q (iter_line buf nxt) q) of
        (Some song, q2) \<Rightarrow>
          (case fname of
             None \<Rightarrow> Inl NullPointer
           | Some f \<Rightarrow> Inr (Some (ReplaceURI song f), iter_buf buf nxt, iter_next buf nxt, q2))
      | (None, q2) \<Rightarrow> Read_loop Q fname (iter_buf buf nxt) (iter_next buf nxt) q2)"
proof -
  let ?m = "drop nxt buf"
  let ?k = "length (iter_line buf nxt)"
  have nul: "NUL \<in> set ?m"
    using assms(1,2) by (rule terminated_drop)
  have k_le: "?k \<le> length (c_str ?m)"
    by (simp add: iter_line_def length_takeWhile_le)
  have sp: "strpbrk ?m [CR, LF] = Inr (if ?k < length (c_str ?m) then Some ?k else None)"
    using strpbrk_terminated [OF nul] by (simp add: iter_line_def)
  show ?thesis
  proof (cases "?k < length (c_str ?m)")
    case True
    have "drop nxt (buf[nxt + ?k := NUL]) = ?m[?k := NUL]"
      by (simp add: drop_update_swap)
    moreover have "c_str (?m[?k := NUL]) = take ?k (c_str ?m)"
      using True by (rule c_str_update)
    moreover have "take ?k (c_str ?m) = iter_line buf nxt"
      unfolding iter_line_def by (rule takeWhile_eq_take [symmetric])
    ultimately have line: "c_str (drop nxt (buf[nxt + ?k := NUL])) = iter_line buf nxt"
      by simp
    have ib: "iter_buf buf nxt = buf[nxt + ?k := NUL]"
      and inx: "iter_next buf nxt = Suc (nxt + ?k)"
      using True by (simp_all add: iter_buf_def iter_next_def)
    show ?thesis
      unfolding ib inx using assms(1,3) True line
      by (subst Read_loop.simps) (simp add: sp)
  next
    case False
    with k_le have "?k = length (c_str ?m)" by simp
    then have line: "c_str ?m = iter_line buf nxt"
      unfolding iter_line_def by (metis takeWhile_length_eq)
    have ib: "iter_buf buf nxt = buf"
      and inx: "iter_next buf nxt = nxt + ?k"
      using False by (simp_all add: iter_buf_def iter_next_def)
    show ?thesis
      unfolding ib inx using assms(1,3) False line
      by (subst Read_loop.simps)
         (simp add: sp strlen_terminated [OF nul])
  qed
qed

lemma iter_facts:
  assumes "nxt < length buf" "last buf = NUL" "buf ! nxt \<noteq> NUL"
  shows iter_length: "length (iter_buf buf nxt) = length buf"
    and iter_advance: "nxt < iter_next buf nxt"
    and iter_bound: "iter_next buf nxt < length buf"
    and iter_within: "iter_next buf nxt \<le> nxt + length (c_str (drop nxt buf))"
    and iter_last: "last (iter_buf buf nxt) = NUL"
    and iter_rest: "drop (iter_next buf nxt) (iter_buf buf nxt) = drop (iter_next buf nxt) buf"
    and iter_c_str: "c_str (drop (iter_next buf nxt) (iter_buf buf nxt))
               = drop (iter_next buf nxt - nxt) (c_str (drop nxt buf))"
    and iter_split: "split_lines (c_str (drop nxt buf))
               = iter_line buf nxt # split_lines (c_str (drop (iter_next buf nxt) (iter_buf buf nxt)))"
proof -
  let ?m = "drop nxt buf"
  let ?rest = "c_str ?m"
  let ?k = "length (iter_line buf nxt)"
  have nul: "NUL \<in> set ?m"
    using assms(1,2) by (rule terminated_drop)
  have k_le: "?k \<le> length ?rest"
    by (simp add: iter_line_def length_takeWhile_le)
  have rest_less: "length ?rest < length ?m"
    using nul by (rule c_str_length_less)
  then have rest_bound: "nxt + length ?rest < length buf"
    by simp
  from assms(1,3) have "?m = buf ! nxt # drop (Suc nxt) buf"
    by (simp add: Cons_nth_drop_Suc)
  with assms(3) have rest_ne: "?rest \<noteq> []"
    by (simp add: c_str_Cons)
  show len: "length (iter_buf buf nxt) = length buf"
    by (simp add: iter_buf_def)
  show adv: "nxt < iter_next buf nxt"
    using rest_ne k_le by (auto simp: iter_next_def)
  show bnd: "iter_next buf nxt < length buf"
    using rest_bound k_le by (auto simp: iter_next_def)
  show "iter_next buf nxt \<le> nxt + length ?rest"
    using k_le by (auto simp: iter_next_def)
  show "last (iter_buf buf nxt) = NUL"
  proof -
    from assms(1) have "buf \<noteq> []" by auto
    with assms(2) rest_bound show ?thesis
      by (auto simp: iter_buf_def last_list_update)
  qed
  show rest: "drop (iter_next buf nxt) (iter_buf buf nxt) = drop (iter_next buf nxt) buf"
    by (auto simp: iter_buf_def iter_next_def)
  have "c_str (drop (iter_next buf nxt) buf) = drop (iter_next buf nxt - nxt) ?rest"
  proof -
    have "iter_next buf nxt - nxt \<le> length ?rest"
      using k_le by (auto simp: iter_next_def)
    then have "c_str (drop (iter_next buf nxt - nxt) ?m) = drop (iter_next buf nxt - nxt) ?rest"
      by (rule c_str_drop)
    with adv show ?thesis by (simp add: add.commute)
  qed
  with rest show cs: "c_str (drop (iter_next buf nxt) (iter_buf buf nxt))
               = drop (iter_next buf nxt - nxt) ?rest"
    by simp
  have "split_lines ?rest = iter_line buf nxt # split_lines (drop (Suc ?k) ?rest)"
    using rest_ne by (simp add: split_lines_nonempty iter_line_def)
  moreover have "drop (Suc ?k) ?rest = drop (iter_next buf nxt - nxt) ?rest"
    using k_le by (auto simp: iter_next_def)
  ultimately show "split_lines ?rest
      = iter_line buf nxt # split_lines (c_str (drop (iter_next buf nxt) (iter_buf buf nxt)))"
    using cs by simp
qed

lemma iter_change:
  assumes "nxt < length buf" "last buf = NUL" "buf ! nxt \<noteq> NUL"
    and "iter_buf buf nxt ! i \<noteq> buf ! i"
  shows "nxt \<le> i \<and> i < iter_next buf nxt \<and> is_eol (buf ! i) \<and> iter_buf buf nxt ! i = NUL"
proof -
  let ?rest = "c_str (drop nxt buf)"
  let ?k = "length (iter_line buf nxt)"
  from assms(4) have lt: "?k < length ?rest"
    by (auto simp: iter_buf_def split: if_splits)
  with assms(4) have i: "i = nxt + ?k"
    by (auto simp: iter_buf_def intro: ccontr)
  have nul: "NUL \<in> set (drop nxt buf)"
    using assms(1,2) by (rule terminated_drop)
  have "length ?rest < length (drop nxt buf)"
    using nul by (rule c_str_length_less)
  with lt have inb: "nxt + ?k < length buf" by simp
  have "?rest ! ?k = drop nxt buf ! ?k"
    using lt unfolding c_str_def by (simp add: takeWhile_nth)
  moreover have "\<not> (\<not> is_eol (?rest ! ?k))"
    using lt unfolding iter_line_def by (rule nth_length_takeWhile)
  ultimately have "is_eol (buf ! (nxt + ?k))"
    using inb by simp
  with lt i inb show ?thesis
    by (simp add: iter_buf_def iter_next_def)
qed

lemma consumed_refl: "nxt < length buf \<Longrightarrow> last buf = NUL \<Longrightarrow> consumed buf nxt buf nxt"
  by (simp add: consumed_def)

lemma consumed_iter:
  assumes "nxt < length buf" "last buf = NUL" "buf ! nxt \<noteq> NUL"
  shows "consumed buf nxt (iter_buf buf nxt) (iter_next buf nxt)"
  unfolding consumed_def
  using iter_facts(1-7) [OF assms] iter_change [OF assms]
  by (metis less_imp_le_nat)

lemma consumed_trans:
  assumes ab: "consumed a na b nb" and bc: "consumed b nb c nc"
  shows "consumed a na c nc"
proof -
  let ?ra = "c_str (drop na a)"
  from ab [unfolded consumed_def] have ab_len: "length b = length a" and ab_le: "na \<le> nb"
    and ab_within: "nb \<le> na + length ?ra"
    and ab_str: "c_str (drop nb b) = drop (nb - na) ?ra"
    and ab_drop: "drop nb b = drop nb a"
    and ab_ch: "\<And>i. b ! i \<noteq> a ! i \<Longrightarrow> na \<le> i \<and> i < nb \<and> is_eol (a ! i) \<and> b ! i = NUL"
    by blast+
  from bc [unfolded consumed_def] have bc_len: "length c = length b" and bc_last: "last c = NUL" and bc_le: "nb \<le> nc"
    and bc_bound: "nc < length c"
    and bc_within: "nc \<le> nb + length (c_str (drop nb b))"
    and bc_str: "c_str (drop nc c) = drop (nc - nb) (c_str (drop nb b))"
    and bc_drop: "drop nc c = drop nc b"
    and bc_ch: "\<And>i. c ! i \<noteq> b ! i \<Longrightarrow> nb \<le> i \<and> i < nc \<and> is_eol (b ! i) \<and> c ! i = NUL"
    by blast+
  have within: "nc \<le> na + length ?ra"
    using bc_within ab_str ab_within ab_le by simp
  have str: "c_str (drop nc c) = drop (nc - na) ?ra"
    using bc_str ab_str ab_le bc_le by simp
  have "drop nc b = drop (nc - nb) (drop nb b)"
    using bc_le by simp
  also have "\<dots> = drop nc a"
    using bc_le by (simp add: ab_drop)
  finally have dr: "drop nc c = drop nc a"
    using bc_drop by simp
  have ch: "na \<le> i \<and> i < nc \<and> is_eol (a ! i) \<and> c ! i = NUL" if neq: "c ! i \<noteq> a ! i" for i
  proof (cases "b ! i = a ! i")
    case True
    with neq have "c ! i \<noteq> b ! i" by simp
    from bc_ch [OF this] True ab_le show ?thesis by simp
  next
    case False
    from ab_ch [OF False] have i: "na \<le> i" "i < nb" "is_eol (a ! i)" "b ! i = NUL"
      by simp_all
    have "c ! i = b ! i"
      using bc_ch [of i] i(2) by auto
    with i bc_le show ?thesis by simp
  qed
  show ?thesis
    unfolding consumed_def
    using ab_len bc_len bc_last ab_le bc_le bc_bound within str dr ch
    by (metis le_trans)
qed

lemma Read_loop_consumed:
  assumes "nxt < length buf" "last buf = NUL"
  shows "\<exists>r buf' nxt' q'.
           Read_loop Q (Some f) buf nxt q = Inr (r, buf', nxt', q') \<and>
           consumed buf nxt buf' nxt' \<and>
           (r = None \<longrightarrow> buf' ! nxt' = NUL) \<and>
           (\<forall>s. r = Some s \<longrightarrow> uri s = c_str f)"
  using assms
proof (induction "length buf - nxt" arbitrary: buf nxt q rule: less_induct)
  case less
  note wf = less.prems
  show ?case
  proof (cases "buf ! nxt = NUL")
    case True
    with wf show ?thesis
      by (auto simp: Read_loop_at_end Read_finish_def Let_def ReplaceURI_def consumed_refl
          split: prod.splits option.splits)
  next
    case False
    note step = Read_loop_step [OF wf False, of Q "Some f" q]
    note c1 = consumed_iter [OF wf False]
    obtain r1 q1 where g: "Get Q (Feed Q (iter_line buf nxt) q) = (r1, q1)"
      by (cases "Get Q (Feed Q (iter_line buf nxt) q)")
    show ?thesis
    proof (cases r1)
      case (Some song)
      with step g c1 show ?thesis
        by (simp add: ReplaceURI_def)
    next
      case None
      have smaller: "length (iter_buf buf nxt) - iter_next buf nxt < length buf - nxt"
        using iter_facts(1-3) [OF wf False] by simp
      have wf1: "iter_next buf nxt < length (iter_buf buf nxt)" "last (iter_buf buf nxt) = NUL"
        using iter_facts [OF wf False] by simp_all
      from less.hyps [OF smaller wf1, of q1]
      obtain r buf' nxt' q' where
        res: "Read_loop Q (Some f) (iter_buf buf nxt) (iter_next buf nxt) q1 = Inr (r, buf', nxt', q')"
        and c2: "consumed (iter_buf buf nxt) (iter_next buf nxt) buf' nxt'"
        and rest: "r = None \<longrightarrow> buf' ! nxt' = NUL" "\<forall>s. r = Some s \<longrightarrow> uri s = c_str f"
        by blast
      from step g None res have "Read_loop Q (Some f) buf nxt q = Inr (r, buf', nxt', q')"
        by simp
      with consumed_trans [OF c1 c2] rest show ?thesis
        by blast
    qed
  qed
qed

section \<open>The parser calls of a read\<close>

lemma traced_simps:
  "New (traced P) = ([], New P)"
  "Feed (traced P) l (t, p) = (t @ [CallFeed l], Feed P l p)"
  "Get (traced P) (t, p) = (fst (Get P p), (t @ [CallGet], snd (Get P p)))"
  "Finish (traced P) (t, p) = (t @ [CallFinish], Finish P p)"
  by (simp_all add: traced_def split: prod.splits)

lemma fed_lines_append: "fed_lines (a @ b) = fed_lines a @ fed_lines b"
  by (induction a rule: fed_lines.induct) simp_all

lemma Read_loop_traced:
  assumes "nxt < length buf" "last buf = NUL"
    and "Read_loop (traced P) fname buf nxt (t, p) = Inr (r, buf', nxt', (t', p'))"
  shows "\<exists>ct. t' = t @ ct \<and>
           fed_lines ct @ split_lines (c_str (drop nxt' buf')) = split_lines (c_str (drop nxt buf)) \<and>
           nxt + length (fed_lines ct) \<le> nxt' \<and>
           count_list ct CallFinish \<le> 1 \<and>
           (r = None \<longrightarrow> count_list ct CallFinish = 1)"
  using assms
proof (induction "length buf - nxt" arbitrary: buf nxt t p rule: less_induct)
  case less
  note wf = less.prems(1,2)
  note res = less.prems(3)
  show ?case
  proof (cases "buf ! nxt = NUL")
    case True
    with wf res have "t' = t @ [CallFinish, CallGet] \<and> buf' = buf \<and> nxt' = nxt"
      by (auto simp: Read_loop_at_end Read_finish_def Let_def traced_simps
          split: prod.splits option.splits)
    then show ?thesis by simp
  next
    case False
    note step = Read_loop_step [OF wf False, of "traced P" fname "(t, p)"]
    let ?line = "iter_line buf nxt"
    let ?t1 = "t @ [CallFeed ?line, CallGet]"
    obtain r1 p1 where g: "Get P (Feed P ?line p) = (r1, p1)"
      by (cases "Get P (Feed P ?line p)")
    have split: "split_lines (c_str (drop nxt buf))
        = ?line # split_lines (c_str (drop (iter_next buf nxt) (iter_buf buf nxt)))"
      using wf False by (rule iter_split)
    have adv: "nxt < iter_next buf nxt"
      using wf False by (rule iter_advance)
    show ?thesis
    proof (cases r1)
      case (Some song)
      with step g res have "t' = ?t1 \<and> buf' = iter_buf buf nxt \<and> nxt' = iter_next buf nxt
          \<and> r \<noteq> None"
        by (auto simp: traced_simps split: option.splits)
      with split adv show ?thesis by simp
    next
      case None
      with step g res have rec:
        "Read_loop (traced P) fname (iter_buf buf nxt) (iter_next buf nxt) (?t1, p1)
           = Inr (r, buf', nxt', (t', p'))"
        by (simp add: traced_simps)
      have smaller: "length (iter_buf buf nxt) - iter_next buf nxt < length buf - nxt"
        using iter_facts(1-3) [OF wf False] by simp
      have wf1: "iter_next buf nxt < length (iter_buf buf nxt)" "last (iter_buf buf nxt) = NUL"
        using iter_facts [OF wf False] by simp_all
      from less.hyps [OF smaller wf1 rec]
      obtain ct where ct: "t' = ?t1 @ ct"
        "fed_lines ct @ split_lines (c_str (drop nxt' buf'))
           = split_lines (c_str (drop (iter_next buf nxt) (iter_buf buf nxt)))"
        "iter_next buf nxt + length (fed_lines ct) \<le> nxt'"
        "count_list ct CallFinish \<le> 1"
        "r = None \<longrightarrow> count_list ct CallFinish = 1"
        by blast
      let ?ct = "[CallFeed ?line, CallGet] @ ct"
      have "t' = t @ ?ct" using ct(1) by simp
      moreover have "fed_lines ?ct @ split_lines (c_str (drop nxt' buf'))
          = split_lines (c_str (drop nxt buf))"
        using ct(2) split by (simp add: fed_lines_append)
      moreover have "nxt + length (fed_lines ?ct) \<le> nxt'"
        using ct(3) adv by (simp add: fed_lines_append)
      moreover have "count_list ?ct CallFinish \<le> 1"
        "r = None \<longrightarrow> count_list ?ct CallFinish = 1"
        using ct(4,5) by simp_all
      ultimately show ?thesis by blast
    qed
  qed
qed

lemma provider_okD:
  assumes "provider_ok playlist"
  obtains f buf p where "filename playlist = Some f" "cuesheet playlist = Some buf"
    "parser playlist = Some p" "next_p playlist < length buf" "last buf = NUL"
  using assms by (auto simp: provider_ok_def split: option.splits)

lemma Read_ok:
  assumes "provider_ok playlist"
  shows "\<exists>r playlist' buf buf'.
           Read Q playlist = Inr (r, playlist') \<and> provider_ok playlist' \<and>
           filename playlist' = filename playlist \<and>
           cuesheet playlist = Some buf \<and> cuesheet playlist' = Some buf' \<and>
           consumed buf (next_p playlist) buf' (next_p playlist')"
proof -
  from assms obtain f buf p where ok: "filename playlist = Some f" "cuesheet playlist = Some buf"
    "parser playlist = Some p" "next_p playlist < length buf" "last buf = NUL"
    by (rule provider_okD)
  obtain r1 p1 where g: "Get Q p = (r1, p1)"
    by (cases "Get Q p")
  show ?thesis
  proof (cases r1)
    case (Some song)
    with ok g show ?thesis
      by (simp add: Read_def provider_ok_def consumed_refl)
  next
    case None
    from Read_loop_consumed [OF ok(4,5), of Q f p1]
    obtain r buf' nxt' q' where
      res: "Read_loop Q (Some f) buf (next_p playlist) p1 = Inr (r, buf', nxt', q')"
      and c: "consumed buf (next_p playlist) buf' nxt'"
      by blast
    from c have "nxt' < length buf'" "last buf' = NUL"
      by (simp_all add: consumed_def)
    with ok g None res c show ?thesis
      by (simp add: Read_def provider_ok_def)
  qed
qed

lemma Read_traced:
  assumes "provider_ok playlist"
    and "Read (traced P) playlist = Inr (r, playlist')"
  shows "\<exists>ct. calls playlist' = calls playlist @ ct \<and>
           fed_lines ct @ split_lines (unconsumed playlist') = split_lines (unconsumed playlist) \<and>
           next_p playlist + length (fed_lines ct) \<le> next_p playlist' \<and>
           count_list ct CallFinish \<le> 1 \<and>
           (r = None \<longrightarrow> count_list ct CallFinish = 1 \<and> unconsumed playlist' = [])"
proof -
  from assms(1) obtain f buf tp where ok: "filename playlist = Some f"
    "cuesheet playlist = Some buf" "parser playlist = Some tp"
    "next_p playlist < length buf" "last buf = NUL"
    by (rule provider_okD)
  obtain t p where tp: "tp = (t, p)" by (cases tp)
  obtain r1 p1 where g: "Get P p = (r1, p1)"
    by (cases "Get P p")
  show ?thesis
  proof (cases r1)
    case (Some song)
    with ok tp g assms(2) have "playlist' = playlist\<lparr>parser := Some (t @ [CallGet], p1)\<rparr>"
      and "r \<noteq> None"
      by (auto simp: Read_def traced_simps)
    with ok tp show ?thesis
      by (simp add: calls_def unconsumed_def)
  next
    case None
    from Read_loop_consumed [OF ok(4,5), of "traced P" f "(t @ [CallGet], p1)"]
    obtain r' buf' nxt' t' p' where
      res: "Read_loop (traced P) (Some f) buf (next_p playlist) (t @ [CallGet], p1)
              = Inr (r', buf', nxt', (t', p'))"
      and c: "consumed buf (next_p playlist) buf' nxt'"
      and e: "r' = None \<longrightarrow> buf' ! nxt' = NUL"
      by (metis prod.collapse)
    from ok tp g None res assms(2) have r: "r = r'"
      and pl': "playlist' = playlist\<lparr>cuesheet := Some buf', next_p := nxt', parser := Some (t', p')\<rparr>"
      by (auto simp: Read_def traced_simps)
    from Read_loop_traced [OF ok(4,5) res]
    obtain ct where ct: "t' = (t @ [CallGet]) @ ct"
      "fed_lines ct @ split_lines (c_str (drop nxt' buf')) = split_lines (c_str (drop (next_p playlist) buf))"
      "next_p playlist + length (fed_lines ct) \<le> nxt'"
      "count_list ct CallFinish \<le> 1"
      "r' = None \<longrightarrow> count_list ct CallFinish = 1"
      by blast
    have end_empty: "c_str (drop nxt' buf') = []" if "r' = None"
    proof -
      from c have "nxt' < length buf'" by (simp add: consumed_def)
      then have "drop nxt' buf' = buf' ! nxt' # drop (Suc nxt') buf'"
        by (simp add: Cons_nth_drop_Suc)
      with e that show ?thesis by (simp add: c_str_Cons)
    qed
    let ?ct = "CallGet # ct"
    have "calls playlist' = calls playlist @ ?ct"
      using ok tp pl' ct(1) by (simp add: calls_def)
    moreover have "fed_lines ?ct @ split_lines (unconsumed playlist') = split_lines (unconsumed playlist)"
      using ok pl' ct(2) by (simp add: unconsumed_def)
    moreover have "next_p playlist + length (fed_lines ?ct) \<le> next_p playlist'"
      using pl' ct(3) by simp
    moreover have "count_list ?ct CallFinish \<le> 1"
      using ct(4) by simp
    moreover have "r = None \<longrightarrow> count_list ?ct CallFinish = 1 \<and> unconsumed playlist' = []"
      using r ct(5) end_empty pl' by (simp add: unconsumed_def)
    ultimately show ?thesis by blast
  qed
qed

section \<open>Successive reads and the lines of a text\<close>

lemma opened_ok: "provider_ok (opened P u v)"
  by (simp add: provider_ok_def opened_def g_strdup_def)

lemma unconsumed_opened: "unconsumed (opened P u v) = c_str v"
  by (simp add: unconsumed_def opened_def c_str_g_strdup)

lemma calls_opened: "calls (opened (traced P) u v) = []"
  by (simp add: calls_def opened_def traced_simps)

lemma reads_ok:
  "provider_ok playlist \<Longrightarrow>
   \<exists>songs playlist'. reads Q n playlist = Inr (songs, playlist') \<and> provider_ok playlist'"
proof (induction n arbitrary: playlist)
  case 0
  then show ?case by simp
next
  case (Suc n)
  from Read_ok [OF Suc.prems, of Q] obtain r pl1 where
    r: "Read Q playlist = Inr (r, pl1)" and ok1: "provider_ok pl1"
    by blast
  from Suc.IH [OF ok1] r show ?case
    by auto
qed

lemma reads_traced:
  assumes "provider_ok playlist"
    and "reads (traced P) n playlist = Inr (songs, playlist')"
  shows "\<exists>ct. calls playlist' = calls playlist @ ct \<and>
           fed_lines ct @ split_lines (unconsumed playlist') = split_lines (unconsumed playlist) \<and>
           next_p playlist + length (fed_lines ct) \<le> next_p playlist' \<and>
           count_list songs None \<le> count_list ct CallFinish \<and>
           count_list ct CallFinish \<le> n \<and>
           (None \<in> set songs \<longrightarrow> unconsumed playlist' = [])"
  using assms
proof (induction n arbitrary: playlist songs)
  case 0
  then show ?case by simp
next
  case (Suc n)
  from Read_ok [OF Suc.prems(1), of "traced P"] obtain r pl1 where
    r: "Read (traced P) playlist = Inr (r, pl1)" and ok1: "provider_ok pl1"
    by blast
  from Suc.prems(2) r obtain rest where
    rest: "reads (traced P) n pl1 = Inr (rest, playlist')" and songs: "songs = r # rest"
    by (auto split: sum.splits)
  from Read_traced [OF Suc.prems(1) r] obtain c1 where c1:
    "calls pl1 = calls playlist @ c1"
    "fed_lines c1 @ split_lines (unconsumed pl1) = split_lines (unconsumed playlist)"
    "next_p playlist + length (fed_lines c1) \<le> next_p pl1"
    "count_list c1 CallFinish \<le> 1"
    "r = None \<longrightarrow> count_list c1 CallFinish = 1 \<and> unconsumed pl1 = []"
    by blast
  from Suc.IH [OF ok1 rest] obtain c2 where c2:
    "calls playlist' = calls pl1 @ c2"
    "fed_lines c2 @ split_lines (unconsumed playlist') = split_lines (unconsumed pl1)"
    "next_p pl1 + length (fed_lines c2) \<le> next_p playlist'"
    "count_list rest None \<le> count_list c2 CallFinish"
    "count_list c2 CallFinish \<le> n"
    "None \<in> set rest \<longrightarrow> unconsumed playlist' = []"
    by blast
  have "calls playlist' = calls playlist @ (c1 @ c2)"
    using c1(1) c2(1) by simp
  moreover have "fed_lines (c1 @ c2) @ split_lines (unconsumed playlist')
      = split_lines (unconsumed playlist)"
    using c1(2) c2(2) by (simp add: fed_lines_append)
  moreover have "next_p playlist + length (fed_lines (c1 @ c2)) \<le> next_p playlist'"
    using c1(3) c2(3) by (simp add: fed_lines_append)
  moreover have "count_list songs None \<le> count_list (c1 @ c2) CallFinish"
    using c1(5) c2(4) songs by auto
  moreover have "count_list (c1 @ c2) CallFinish \<le> Suc n"
    using c1(4) c2(5) by simp
  moreover have "None \<in> set songs \<longrightarrow> unconsumed playlist' = []"
  proof
    assume "None \<in> set songs"
    then consider "r = None" | "None \<in> set rest"
      using songs by auto
    then show "unconsumed playlist' = []"
    proof cases
      case 1
      with c1(5) have "unconsumed pl1 = []" by simp
      with c2(2) show ?thesis
        by (cases "unconsumed playlist' = []") (simp_all add: split_lines_Nil split_lines_nonempty)
    next
      case 2
      with c2(6) show ?thesis by simp
    qed
  qed
  ultimately show ?case by blast
qed


lemma Read_at_end:
  assumes "provider_ok playlist" "unconsumed playlist = []"
    and "Read Q playlist = Inr (r, playlist')"
  shows "cuesheet playlist' = cuesheet playlist \<and> next_p playlist' = next_p playlist
     \<and> unconsumed playlist' = [] \<and> provider_ok playlist'"
proof -
  from Read_ok [OF assms(1), of Q] assms(3) obtain buf buf' where
    ok': "provider_ok playlist'" and b: "cuesheet playlist = Some buf" "cuesheet playlist' = Some buf'"
    and c: "consumed buf (next_p playlist) buf' (next_p playlist')"
    by auto
  from assms(2) b have e: "c_str (drop (next_p playlist) buf) = []"
    by (simp add: unconsumed_def)
  from c [unfolded consumed_def] e have n: "next_p playlist' = next_p playlist"
    and len: "length buf' = length buf"
    and ch: "\<And>i. buf' ! i \<noteq> buf ! i \<Longrightarrow> next_p playlist \<le> i \<and> i < next_p playlist'"
    and str: "c_str (drop (next_p playlist') buf') = []"
    by auto
  from ch n have "buf' ! i = buf ! i" for i
    by (metis not_le)
  with len have "buf' = buf"
    by (simp add: nth_equalityI)
  with n b str ok' show ?thesis
    by (simp add: unconsumed_def)
qed

lemma reads_at_end:
  assumes "provider_ok playlist" "unconsumed playlist = []"
    and "reads Q n playlist = Inr (songs, playlist')"
  shows "cuesheet playlist' = cuesheet playlist \<and> next_p playlist' = next_p playlist"
  using assms
proof (induction n arbitrary: playlist songs)
  case 0
  then show ?case by simp
next
  case (Suc n)
  from Suc.prems(3) obtain r pl1 rest where
    r: "Read Q playlist = Inr (r, pl1)" and rest: "reads Q n pl1 = Inr (rest, playlist')"
    by (auto split: sum.splits)
  from Read_at_end [OF Suc.prems(1,2) r] Suc.IH [OF _ _ rest] show ?case
    by simp
qed

lemma c_str_to_crlf: "c_str (to_crlf v) = to_crlf (c_str v)"
  by (induction v) (simp_all add: to_crlf_def c_str_Cons c_str_Nil)

lemma split_lines_line:
  assumes "\<forall>c\<in>set l. \<not> is_eol c" "is_eol e"
  shows "split_lines (l @ e # r) = l # split_lines r"
proof -
  have "takeWhile (\<lambda>c. \<not> is_eol c) (l @ e # r) = l"
    using assms by (simp add: takeWhile_append2)
  then show ?thesis
    by (simp add: split_lines_nonempty)
qed

lemma split_lines_last_line:
  assumes "l \<noteq> []" "\<forall>c\<in>set l. \<not> is_eol c"
  shows "split_lines l = [l]"
proof -
  have tw: "takeWhile (\<lambda>c. \<not> is_eol c) l = l"
    using assms(2) by simp
  from split_lines_nonempty [OF assms(1)] show ?thesis
    unfolding tw by (simp add: split_lines_Nil)
qed

lemma to_crlf_line: "\<forall>c\<in>set l. \<not> is_eol c \<Longrightarrow> to_crlf l = l"
  by (induction l) (auto simp: to_crlf_def is_eol_def)

lemma to_crlf_append: "to_crlf (a @ b) = to_crlf a @ to_crlf b"
  by (simp add: to_crlf_def)

lemma text_cases:
  obtains (last_line) "\<forall>c\<in>set t. \<not> is_eol c"
  | (line) l e r where "t = l @ e # r" "\<forall>c\<in>set l. \<not> is_eol c" "is_eol e"
      "r = drop 1 (dropWhile (\<lambda>c. \<not> is_eol c) t)"
proof (cases "dropWhile (\<lambda>c. \<not> is_eol c) t")
  case Nil
  then have "\<forall>c\<in>set t. \<not> is_eol c"
    by (simp add: dropWhile_eq_Nil_conv)
  then show ?thesis by (rule last_line)
next
  case (Cons e r)
  let ?l = "takeWhile (\<lambda>c. \<not> is_eol c) t"
  have "t = ?l @ e # r"
    using Cons by (metis takeWhile_dropWhile_id)
  moreover have "\<forall>c\<in>set ?l. \<not> is_eol c"
    by (auto dest: set_takeWhileD)
  moreover have "is_eol e"
    using Cons by (metis hd_dropWhile list.sel(1) list.distinct(1))
  moreover have "r = drop 1 (dropWhile (\<lambda>c. \<not> is_eol c) t)"
    using Cons by simp
  ultimately show ?thesis by (rule line)
qed

lemma nonempty_lines_to_crlf:
  "filter (\<lambda>l. l \<noteq> []) (split_lines (to_crlf t)) = filter (\<lambda>l. l \<noteq> []) (split_lines t)"
proof (induction t rule: split_lines.induct)
  case (1 t)
  show ?case
  proof (cases t rule: text_cases)
    case last_line
    then show ?thesis by (simp add: to_crlf_line)
  next
    case (line l e r)
    from line(1) have "t \<noteq> []" by simp
    from "1.IH" [OF this] line(4)
    have IH: "filter (\<lambda>l. l \<noteq> []) (split_lines (to_crlf r)) = filter (\<lambda>l. l \<noteq> []) (split_lines r)"
      by simp
    have t: "split_lines t = l # split_lines r"
      unfolding line(1) using line(2,3) by (rule split_lines_line)
    show ?thesis
    proof (cases "e = LF")
      case True
      have "to_crlf t = l @ CR # ([] @ LF # to_crlf r)"
        unfolding line(1) using line(2) True
        by (simp add: to_crlf_append to_crlf_line) (simp add: to_crlf_def)
      also have "split_lines \<dots> = l # split_lines ([] @ LF # to_crlf r)"
        using line(2) by (intro split_lines_line) (simp_all add: is_eol_def)
      also have "split_lines ([] @ LF # to_crlf r) = [] # split_lines (to_crlf r)"
        by (intro split_lines_line) (simp_all add: is_eol_def)
      finally show ?thesis using t IH by simp
    next
      case False
      have "to_crlf t = l @ e # to_crlf r"
        unfolding line(1) using line(2) False
        by (simp add: to_crlf_append to_crlf_line) (simp add: to_crlf_def)
      also have "split_lines \<dots> = l # split_lines (to_crlf r)"
        using line(2,3) by (rule split_lines_line)
      finally show ?thesis using t IH by simp
    qed
  qed
qed

lemma split_lines_no_eol: "l \<in> set (split_lines t) \<Longrightarrow> c \<in> set l \<Longrightarrow> \<not> is_eol c"
proof (induction t rule: split_lines.induct)
  case (1 t)
  show ?case
  proof (cases "t = []")
    case True
    with "1.prems" show ?thesis by (simp add: split_lines_Nil)
  next
    case False
    with "1.prems"(1) consider "l = takeWhile (\<lambda>c. \<not> is_eol c) t"
      | "l \<in> set (split_lines (drop 1 (dropWhile (\<lambda>c. \<not> is_eol c) t)))"
      by (auto simp: split_lines_nonempty dropWhile_eq_drop)
    then show ?thesis
    proof cases
      case 1
      with "1.prems"(2) show ?thesis by (auto dest: set_takeWhileD)
    next
      case 2
      from "1.IH" [OF False 2 "1.prems"(2)] show ?thesis .
    qed
  qed
qed

lemma split_lines_unterminated:
  assumes "t \<noteq> []" "\<not> is_eol (last t)"
  shows "split_lines t \<noteq> [] \<and>
         last (split_lines t) = rev (takeWhile (\<lambda>c. \<not> is_eol c) (rev t))"
  using assms
proof (induction t rule: split_lines.induct)
  case (1 t)
  show ?case
  proof (cases t rule: text_cases)
    case last_line
    then have tw: "takeWhile (\<lambda>c. \<not> is_eol c) (rev t) = rev t"
      by simp
    show ?thesis
      unfolding tw using last_line "1.prems"(1) by (simp add: split_lines_last_line)
  next
    case (line l e r)
    from line(1,3) "1.prems"(2) have r: "r \<noteq> []" "\<not> is_eol (last r)"
      by (auto split: if_splits)
    from "1.IH" [OF "1.prems"(1)] line(4) r
    have IH: "split_lines r \<noteq> []"
      "last (split_lines r) = rev (takeWhile (\<lambda>c. \<not> is_eol c) (rev r))"
      by simp_all
    have t: "split_lines t = l # split_lines r"
      unfolding line(1) using line(2,3) by (rule split_lines_line)
    have "takeWhile (\<lambda>c. \<not> is_eol c) (rev t) = takeWhile (\<lambda>c. \<not> is_eol c) (rev r)"
    proof (cases "\<forall>c\<in>set r. \<not> is_eol c")
      case True
      then have tw: "takeWhile (\<lambda>c. \<not> is_eol c) (rev r) = rev r"
        by simp
      show ?thesis
        unfolding line(1) using line(3) True by (simp add: takeWhile_append tw)
    next
      case False
      then show ?thesis
        unfolding line(1) by (auto simp: takeWhile_append)
    qed
    with t IH show ?thesis by simp
  qed
qed

lemma Read_loop_end_state:
  assumes "nxt < length buf" "last buf = NUL"
    and "Read_loop (traced P) fname buf nxt (t, p) = Inr (None, buf', nxt', (t', p'))"
  shows "\<exists>q. Get P (Finish P q) = (None, p')"
  using assms
proof (induction "length buf - nxt" arbitrary: buf nxt t p rule: less_induct)
  case less
  note wf = less.prems(1,2)
  note res = less.prems(3)
  show ?case
  proof (cases "buf ! nxt = NUL")
    case True
    with wf res have "Get P (Finish P p) = (None, p')"
      by (auto simp: Read_loop_at_end Read_finish_def Let_def traced_simps prod_eq_iff
          split: prod.splits option.splits)
    then show ?thesis by blast
  next
    case False
    note step = Read_loop_step [OF wf False, of "traced P" fname "(t, p)"]
    let ?line = "iter_line buf nxt"
    obtain r1 p1 where g: "Get P (Feed P ?line p) = (r1, p1)"
      by (cases "Get P (Feed P ?line p)")
    show ?thesis
    proof (cases r1)
      case (Some song)
      with step g res show ?thesis
        by (auto simp: traced_simps split: option.splits)
    next
      case None
      with step g res have rec:
        "Read_loop (traced P) fname (iter_buf buf nxt) (iter_next buf nxt)
           (t @ [CallFeed ?line, CallGet], p1) = Inr (None, buf', nxt', (t', p'))"
        by (simp add: traced_simps)
      have smaller: "length (iter_buf buf nxt) - iter_next buf nxt < length buf - nxt"
        using iter_facts(1-3) [OF wf False] by simp
      have wf1: "iter_next buf nxt < length (iter_buf buf nxt)" "last (iter_buf buf nxt) = NUL"
        using iter_facts [OF wf False] by simp_all
      from less.hyps [OF smaller wf1 rec] show ?thesis .
    qed
  qed
qed

lemma Read_end_state:
  assumes "provider_ok playlist"
    and "Read (traced P) playlist = Inr (None, playlist')"
  shows "\<exists>t' p' q. parser playlist' = Some (t', p') \<and> Get P (Finish P q) = (None, p')"
proof -
  from assms(1) obtain f buf tp where ok: "filename playlist = Some f"
    "cuesheet playlist = Some buf" "parser playlist = Some tp"
    "next_p playlist < length buf" "last buf = NUL"
    by (rule provider_okD)
  obtain t p where tp: "tp = (t, p)" by (cases tp)
  obtain r1 p1 where g: "Get P p = (r1, p1)"
    by (cases "Get P p")
  from ok tp g assms(2) have r1: "r1 = None"
    by (cases r1) (auto simp: Read_def traced_simps)
  from ok tp g r1 assms(2) obtain buf' nxt' t' p' where
    res: "Read_loop (traced P) (Some f) buf (next_p playlist) (t @ [CallGet], p1)
            = Inr (None, buf', nxt', (t', p'))"
    and pl': "parser playlist' = Some (t', p')"
    by (auto simp: Read_def traced_simps split: sum.splits)
  from Read_loop_end_state [OF ok(4,5) res] pl' show ?thesis
    by blast
qed

lemma Read_stays_at_end:
  assumes "provider_ok playlist" "unconsumed playlist = []"
    and "parser playlist = Some (t, p)" and "I p"
    and inv: "\<And>q. I q \<Longrightarrow> fst (Get P q) = None \<and> I (snd (Get P q)) \<and> I (Finish P q)"
  shows "\<exists>p'. Read (traced P) playlist
           = Inr (None, playlist\<lparr>parser := Some (t @ [CallGet, CallFinish, CallGet], p')\<rparr>) \<and>
         I p'"
proof -
  from assms(1) obtain f buf tp where ok: "filename playlist = Some f"
    "cuesheet playlist = Some buf" "parser playlist = Some tp"
    "next_p playlist < length buf" "last buf = NUL"
    by (rule provider_okD)
  from ok(4) have "drop (next_p playlist) buf
      = buf ! next_p playlist # drop (Suc (next_p playlist)) buf"
    by (simp add: Cons_nth_drop_Suc)
  with assms(2) ok(2) have at_end: "buf ! next_p playlist = NUL"
    by (auto simp: unconsumed_def c_str_Cons split: if_splits)
  let ?p1 = "snd (Get P p)"
  let ?p2 = "Finish P ?p1"
  let ?p3 = "snd (Get P ?p2)"
  from inv [OF assms(4)] have g1: "fst (Get P p) = None" and i1: "I ?p1"
    by simp_all
  from inv [OF i1] have i2: "I ?p2"
    by simp
  from inv [OF i2] have g2: "fst (Get P ?p2) = None" and i3: "I ?p3"
    by simp_all
  have g1': "Get (traced P) (t, p) = (None, (t @ [CallGet], ?p1))"
    using g1 by (simp add: traced_simps)
  have fin: "Read_finish (traced P) (Some f) buf (next_p playlist) (t @ [CallGet], ?p1)
      = Inr (None, buf, next_p playlist, (t @ [CallGet, CallFinish, CallGet], ?p3))"
    using g2 by (simp add: Read_finish_def Let_def traced_simps)
  have same: "playlist\<lparr>cuesheet := Some buf, next_p := next_p playlist,
          parser := Some (t @ [CallGet, CallFinish, CallGet], ?p3)\<rparr>
        = playlist\<lparr>parser := Some (t @ [CallGet, CallFinish, CallGet], ?p3)\<rparr>"
    using ok(2) by simp
  have "Read (traced P) playlist
      = Inr (None, playlist\<lparr>parser := Some (t @ [CallGet, CallFinish, CallGet], ?p3)\<rparr>)"
    by (simp add: Read_def assms(3) ok(1,2) g1' Read_loop_at_end [OF ok(4) at_end] fin same)
  with i3 show ?thesis by blast
qed

lemma reads_stay_at_end:
  assumes "provider_ok playlist" "unconsumed playlist = []"
    and "parser playlist = Some (t, p)" and "I p"
    and inv: "\<And>q. I q \<Longrightarrow> fst (Get P q) = None \<and> I (snd (Get P q)) \<and> I (Finish P q)"
    and "reads (traced P) n playlist = Inr (songs, playlist')"
  shows "songs = replicate n None \<and>
         count_list (calls playlist') CallFinish = count_list (calls playlist) CallFinish + n"
  using assms(1-4,6)
proof (induction n arbitrary: playlist t p songs)
  case 0
  then show ?case by simp
next
  case (Suc n)
  from Read_stays_at_end [OF Suc.prems(1-4) inv] obtain p' where
    r: "Read (traced P) playlist
          = Inr (None, playlist\<lparr>parser := Some (t @ [CallGet, CallFinish, CallGet], p')\<rparr>)"
    and i: "I p'"
    by blast
  let ?pl1 = "playlist\<lparr>parser := Some (t @ [CallGet, CallFinish, CallGet], p')\<rparr>"
  from Suc.prems(5) r obtain rest where
    rest: "reads (traced P) n ?pl1 = Inr (rest, playlist')" and songs: "songs = None # rest"
    by (auto split: sum.splits)
  have ok1: "provider_ok ?pl1" "unconsumed ?pl1 = []"
    "parser ?pl1 = Some (t @ [CallGet, CallFinish, CallGet], p')"
    using Suc.prems(1,2) by (simp_all add: provider_ok_def unconsumed_def split: option.splits)
  from Suc.IH [OF ok1 i rest] songs Suc.prems(3) show ?case
    by (simp add: calls_def)
qed

lemma sample_parser_keeps_end:
  "keeps_end_of_input sample_parser (\<lambda>s. ended s \<and> previous s = None \<and> finished s = None)"
  unfolding keeps_end_of_input_def
  by (auto simp: sample_parser_def sample_Get_def sample_Finish_def sample_Commit_def Let_def
      split: if_splits)

lemma reads_Suc:
  "Read Q playlist = Inr (r, pl1) \<Longrightarrow> reads Q n pl1 = Inr (rs, pl2) \<Longrightarrow>
   reads Q (Suc n) playlist = Inr (r # rs, pl2)"
  by simp

lemma sample_first_read:
  "Read (traced sample_parser) (opened (traced sample_parser) ''/music/album.flac'' sample_sheet)
     = Inr (Some \<lparr>uri = ''album.flac'', track = ''01''\<rparr>, sample_held)"
  by code_simp

section \<open>The claims about open\<close>

text \<open>
  C4: for every uri that is not an absolute path, open returns absent at once, whatever
  tags the file holds, and runs no tag scanner.
\<close>

theorem open_non_absolute_absent:
  "\<not> g_path_is_absolute u \<Longrightarrow> embcue_playlist_open_uri S P u = (None, [])"
  by (simp add: embcue_playlist_open_uri_def)

theorem open_non_absolute_absent_witness:
  "\<not> g_path_is_absolute ''http://host/album.flac'' \<and>
   embcue_playlist_open_uri (fixed_scanners [(''CUESHEET'', sample_sheet)] [] [])
     sample_parser ''http://host/album.flac'' = (None, [])"
proof -
  have h: "\<not> g_path_is_absolute ''http://host/album.flac''"
    by (simp add: g_path_is_absolute_def)
  from h open_non_absolute_absent [OF h] show ?thesis by simp
qed

text \<open>
  C5: for an absolute path, open runs the scanners in the order file tags, APE tags,
  ID3 tags and stops after the first one that yields a CUESHEET value; the provider
  is built from that value, whatever the later scanners would have found.
\<close>

theorem open_scanner_priority:
  "g_path_is_absolute u \<Longrightarrow>
   embcue_playlist_open_uri S P u =
     (case cuesheet_tag (tag_file_scan S u) of
        Some val \<Rightarrow> (Some (opened P u val), [TagFileScan])
      | None \<Rightarrow>
         (case cuesheet_tag (tag_ape_scan2 S u) of
            Some val \<Rightarrow> (Some (opened P u val), [TagFileScan, TagApeScan])
          | None \<Rightarrow>
             (case cuesheet_tag (tag_id3_scan S u) of
                Some val \<Rightarrow> (Some (opened P u val), [TagFileScan, TagApeScan, TagId3Scan])
              | None \<Rightarrow> (None, [TagFileScan, TagApeScan, TagId3Scan]))))"
  by (simp add: open_uri_eq)

theorem open_scanner_priority_witness:
  "g_path_is_absolute ''/music/album.flac'' \<and>
   embcue_playlist_open_uri
     (fixed_scanners [(''ARTIST'', ''x'')] [(''Cuesheet'', ''TRACK 01'')]
        [(''CUESHEET'', ''TRACK 02'')])
     sample_parser ''/music/album.flac''
   = (Some (opened sample_parser ''/music/album.flac'' ''TRACK 01''),
      [TagFileScan, TagApeScan])"
proof -
  have h: "g_path_is_absolute ''/music/album.flac''"
    by (simp add: g_path_is_absolute_def)
  have a: "cuesheet_tag [(''ARTIST'', ''x'')] = None"
    and b: "cuesheet_tag [(''Cuesheet'', ''TRACK 01'')] = Some ''TRACK 01''"
    by code_simp+
  from h open_scanner_priority [OF h, of
      "fixed_scanners [(''ARTIST'', ''x'')] [(''Cuesheet'', ''TRACK 01'')]
         [(''CUESHEET'', ''TRACK 02'')]" sample_parser]
  show ?thesis
    by (simp add: fixed_scanners_def a b)
qed

text \<open>
  C6: the tag selector keeps a copy of the value of the first pair whose name equals
  "CUESHEET" when case is ignored, and nothing else: a pair with another name changes
  nothing, and once a value is held every further pair changes nothing, so a provider
  captures at most once.
\<close>

theorem tag_selector_first_match:
  "embcue_tag_pair name val playlist =
     (if cuesheet playlist = None \<and> is_cuesheet_name name
      then playlist\<lparr>cuesheet := Some (c_str val @ [NUL])\<rparr> else playlist) \<and>
   scan_pairs pairs playlist =
     (case cuesheet playlist of
        Some held \<Rightarrow> playlist
      | None \<Rightarrow>
         (case find (\<lambda>(name, val). is_cuesheet_name name) pairs of
            None \<Rightarrow> playlist
          | Some (name, val) \<Rightarrow> playlist\<lparr>cuesheet := Some (c_str val @ [NUL])\<rparr>))"
proof (cases "cuesheet playlist")
  case None
  then show ?thesis
    by (simp add: scan_pairs_eq cuesheet_tag_def embcue_tag_pair_def strcasecmp_cuesheet
        g_strdup_def split: option.splits)
next
  case (Some held)
  then show ?thesis
    by (simp add: scan_pairs_captured embcue_tag_pair_def)
qed

text \<open>
  C7, as the code has it: open returns absent exactly when the uri is not an absolute
  path or none of the three scanners yields a CUESHEET pair.  The value of the pair
  plays no part: an empty CUE sheet still gives a provider.
\<close>

theorem open_absent_iff:
  "fst (embcue_playlist_open_uri S P u) = None \<longleftrightarrow>
     \<not> g_path_is_absolute u \<or>
     (cuesheet_tag (tag_file_scan S u) = None \<and>
      cuesheet_tag (tag_ape_scan2 S u) = None \<and>
      cuesheet_tag (tag_id3_scan S u) = None)"
  by (simp add: open_uri_eq split: option.splits)

theorem open_absent_iff_witness:
  "g_path_is_absolute ''/music/album.flac'' \<and>
   fst (embcue_playlist_open_uri (fixed_scanners [(''ARTIST'', ''x'')] [] [(''TITLE'', ''y'')])
          sample_parser ''/music/album.flac'') = None"
proof -
  have h: "g_path_is_absolute ''/music/album.flac''"
    by (simp add: g_path_is_absolute_def)
  have a: "cuesheet_tag [(''ARTIST'', ''x'')] = None"
    and b: "cuesheet_tag [] = None"
    and c: "cuesheet_tag [(''TITLE'', ''y'')] = None"
    by code_simp+
  from h open_absent_iff [of
      "fixed_scanners [(''ARTIST'', ''x'')] [] [(''TITLE'', ''y'')]" sample_parser
      "''/music/album.flac''"]
  show ?thesis
    by (simp add: fixed_scanners_def a b c)
qed

theorem open_empty_sheet_counterexample:
  "embcue_playlist_open_uri (fixed_scanners [(''CUESHEET'', [])] [] [])
     sample_parser ''/music/album.flac''
   = (Some \<lparr>filename = Some ''album.flac'', cuesheet = Some [NUL], next_p = 0,
            parser = Some (New sample_parser)\<rparr>, [TagFileScan])"
  by code_simp

section \<open>The claims about read\<close>

text \<open>
  C8: when the parser already holds a completed track at the start of a read, the read
  returns that track at once.  Its only parser call is the \<open>Get\<close> that takes the
  track: no line is fed, and \<open>next\<close> and the buffer are as before (the provider
  changes in its parser only).
\<close>

theorem read_returns_held_track:
  assumes "parser playlist = Some (t, p)" and "Get P p = (Some song, p')"
  shows "Read (traced P) playlist
           = Inr (Some song, playlist\<lparr>parser := Some (t @ [CallGet], p')\<rparr>)"
  using assms by (simp add: Read_def traced_simps)

theorem read_returns_held_track_witness:
  "Read (traced sample_parser) sample_held
     = Inr (Some \<lparr>uri = ''cd.wav'', track = ''02''\<rparr>,
            sample_held\<lparr>parser := Some (calls sample_held @ [CallGet],
              \<lparr>cur_file = ''cd.wav'', current = None, previous = None, finished = None,
               ended = True\<rparr>)\<rparr>)"
proof -
  let ?s = "\<lparr>cur_file = ''cd.wav'', current = None,
             previous = Some \<lparr>uri = ''cd.wav'', track = ''02''\<rparr>,
             finished = None, ended = True\<rparr>"
  have p: "parser sample_held = Some (calls sample_held, ?s)"
    by (simp add: sample_held_def calls_def)
  have g: "Get sample_parser ?s
      = (Some \<lparr>uri = ''cd.wav'', track = ''02''\<rparr>,
         \<lparr>cur_file = ''cd.wav'', current = None, previous = None, finished = None,
          ended = True\<rparr>)"
    by (simp add: sample_parser_def sample_Get_def)
  from read_returns_held_track [OF p g] show ?thesis .
qed

text \<open>
  C1, on the spec's own kind of example.  A file \<open>/music/album.flac\<close> carries the
  CUE sheet \<open>sample_sheet\<close> of two tracks, whose FILE line names \<open>cd.wav\<close>.
  Open succeeds; the first read returns track 01 with the source reference
  \<open>album.flac\<close>, the second read finds track 02 held by the parser and returns it
  from the first return statement of \<open>Read\<close>, which does not call
  \<open>ReplaceURI\<close>: the track still refers to \<open>cd.wav\<close>.
\<close>

theorem held_track_keeps_cue_file:
  "embcue_playlist_open_uri (fixed_scanners [(''CUESHEET'', sample_sheet)] [] [])
     sample_parser ''/music/album.flac''
   = (Some (opened sample_parser ''/music/album.flac'' sample_sheet), [TagFileScan]) \<and>
   map_sum id fst (reads sample_parser 3 (opened sample_parser ''/music/album.flac'' sample_sheet))
   = Inr [Some \<lparr>uri = ''album.flac'', track = ''01''\<rparr>,
          Some \<lparr>uri = ''cd.wav'', track = ''02''\<rparr>, None]"
proof
  show "embcue_playlist_open_uri (fixed_scanners [(''CUESHEET'', sample_sheet)] [] [])
     sample_parser ''/music/album.flac''
   = (Some (opened sample_parser ''/music/album.flac'' sample_sheet), [TagFileScan])"
    by code_simp
  show "map_sum id fst (reads sample_parser 3 (opened sample_parser ''/music/album.flac'' sample_sheet))
   = Inr [Some \<lparr>uri = ''album.flac'', track = ''01''\<rparr>,
          Some \<lparr>uri = ''cd.wav'', track = ''02''\<rparr>, None]"
    by code_simp
qed

text \<open>
  C9, as the code has it: a read changes the captured buffer only by overwriting line
  terminators of the part it consumes with NUL.  The buffer keeps its length, the text
  from the new \<open>next\<close> on is untouched, and every character that differs was a
  carriage return or line feed between the old and the new \<open>next\<close>.
\<close>

theorem read_changes_only_consumed_terminators:
  assumes "provider_ok playlist"
  shows "\<exists>song playlist' buf buf'.
           Read Q playlist = Inr (song, playlist') \<and>
           cuesheet playlist = Some buf \<and> cuesheet playlist' = Some buf' \<and>
           length buf' = length buf \<and>
           drop (next_p playlist') buf' = drop (next_p playlist') buf \<and>
           (\<forall>i. buf' ! i \<noteq> buf ! i \<longrightarrow>
                is_eol (buf ! i) \<and> buf' ! i = NUL \<and>
                next_p playlist \<le> i \<and> i < next_p playlist')"
proof -
  from Read_ok [OF assms, of Q] obtain song playlist' buf buf' where
    r: "Read Q playlist = Inr (song, playlist')"
    and b: "cuesheet playlist = Some buf" "cuesheet playlist' = Some buf'"
    and c: "consumed buf (next_p playlist) buf' (next_p playlist')"
    by blast
  from c [unfolded consumed_def] have "length buf' = length buf"
    and "drop (next_p playlist') buf' = drop (next_p playlist') buf"
    and "\<forall>i. buf' ! i \<noteq> buf ! i \<longrightarrow>
           is_eol (buf ! i) \<and> buf' ! i = NUL \<and> next_p playlist \<le> i \<and> i < next_p playlist'"
    by blast+
  with r b show ?thesis by blast
qed

theorem read_changes_only_consumed_terminators_witness:
  "provider_ok (opened (traced sample_parser) ''/music/album.flac'' sample_sheet) \<and>
   (\<exists>song playlist' buf buf'.
      Read (traced sample_parser) (opened (traced sample_parser) ''/music/album.flac'' sample_sheet)
        = Inr (song, playlist') \<and>
      cuesheet (opened (traced sample_parser) ''/music/album.flac'' sample_sheet) = Some buf \<and>
      cuesheet playlist' = Some buf' \<and> length buf' = length buf \<and>
      drop (next_p playlist') buf' = drop (next_p playlist') buf \<and>
      buf' ! 11 \<noteq> buf ! 11 \<and> is_eol (buf ! 11) \<and> buf' ! 11 = NUL \<and> 11 < next_p playlist')"
proof -
  let ?pl = "opened (traced sample_parser) ''/music/album.flac'' sample_sheet"
  have ok: "provider_ok ?pl" by (rule opened_ok)
  from read_changes_only_consumed_terminators [OF ok, of "traced sample_parser"]
  obtain song playlist' buf buf' where
    r: "Read (traced sample_parser) ?pl = Inr (song, playlist')"
    and b: "cuesheet ?pl = Some buf" "cuesheet playlist' = Some buf'"
    and l: "length buf' = length buf"
    and d: "drop (next_p playlist') buf' = drop (next_p playlist') buf"
    and ch: "\<forall>i. buf' ! i \<noteq> buf ! i \<longrightarrow>
           is_eol (buf ! i) \<and> buf' ! i = NUL \<and> next_p ?pl \<le> i \<and> i < next_p playlist'"
    by blast
  from r have pl': "playlist' = sample_held"
    by (simp add: sample_first_read)
  have "the (cuesheet sample_held) ! 11 \<noteq> the (cuesheet ?pl) ! 11"
    by code_simp
  with b pl' have "buf' ! 11 \<noteq> buf ! 11" by simp
  with ch have "buf' ! 11 \<noteq> buf ! 11 \<and> is_eol (buf ! 11) \<and> buf' ! 11 = NUL \<and> 11 < next_p playlist'"
    by blast
  with ok r b l d show ?thesis by blast
qed

theorem read_overwrites_terminators_counterexample:
  "map_sum id (\<lambda>(song, playlist').
       cuesheet playlist' = cuesheet (opened sample_parser ''/music/album.flac'' sample_sheet))
     (Read sample_parser (opened sample_parser ''/music/album.flac'' sample_sheet))
   = Inr False"
  by code_simp

text \<open>
  C10: a read on a provider returns without fault.  The number of lines it feeds, one
  per iteration of the loop, is at most the distance \<open>next\<close> advances, which is at
  most the length of the text that was left; \<open>next\<close> stays inside the buffer.
\<close>

theorem read_terminates_within_text:
  assumes "provider_ok playlist"
  shows "\<exists>song playlist' ct buf'.
           Read (traced P) playlist = Inr (song, playlist') \<and>
           calls playlist' = calls playlist @ ct \<and>
           next_p playlist + length (fed_lines ct) \<le> next_p playlist' \<and>
           next_p playlist' \<le> next_p playlist + length (unconsumed playlist) \<and>
           cuesheet playlist' = Some buf' \<and> next_p playlist' < length buf' \<and>
           provider_ok playlist'"
proof -
  from Read_ok [OF assms, of "traced P"] obtain song playlist' buf buf' where
    r: "Read (traced P) playlist = Inr (song, playlist')" and ok': "provider_ok playlist'"
    and b: "cuesheet playlist = Some buf" "cuesheet playlist' = Some buf'"
    and c: "consumed buf (next_p playlist) buf' (next_p playlist')"
    by blast
  from c [unfolded consumed_def] b have "next_p playlist' < length buf'"
    and "next_p playlist' \<le> next_p playlist + length (unconsumed playlist)"
    by (simp_all add: unconsumed_def)
  moreover from Read_traced [OF assms r] obtain ct where
    "calls playlist' = calls playlist @ ct"
    "next_p playlist + length (fed_lines ct) \<le> next_p playlist'"
    by blast
  ultimately show ?thesis using r ok' b by blast
qed

theorem read_terminates_within_text_witness:
  "provider_ok (opened (traced sample_parser) ''/music/album.flac'' sample_sheet) \<and>
   (\<exists>song playlist' ct buf'.
      Read (traced sample_parser) (opened (traced sample_parser) ''/music/album.flac'' sample_sheet)
        = Inr (song, playlist') \<and>
      calls playlist' = ct \<and> length (fed_lines ct) = 5 \<and>
      length (fed_lines ct) \<le> next_p playlist' \<and>
      next_p playlist' \<le> length (c_str sample_sheet) \<and>
      cuesheet playlist' = Some buf' \<and> next_p playlist' < length buf')"
proof -
  let ?pl = "opened (traced sample_parser) ''/music/album.flac'' sample_sheet"
  have ok: "provider_ok ?pl" by (rule opened_ok)
  from read_terminates_within_text [OF ok, of sample_parser]
  obtain song playlist' ct buf' where
    r: "Read (traced sample_parser) ?pl = Inr (song, playlist')"
    and c: "calls playlist' = calls ?pl @ ct"
    "next_p ?pl + length (fed_lines ct) \<le> next_p playlist'"
    "next_p playlist' \<le> next_p ?pl + length (unconsumed ?pl)"
    "cuesheet playlist' = Some buf'" "next_p playlist' < length buf'"
    by blast
  from r have pl': "playlist' = sample_held"
    by (simp add: sample_first_read)
  have "length (fed_lines (calls sample_held)) = 5"
    by code_simp
  with pl' c(1) have "length (fed_lines ct) = 5"
    by (simp add: calls_opened)
  moreover have "next_p ?pl = 0"
    by (simp add: opened_def)
  moreover note c [unfolded calls_opened unconsumed_opened]
  ultimately show ?thesis
    using ok r by auto
qed

text \<open>
  C2, as the code has it.  Once a read has returned end-of-sequence, \<open>next\<close> is at
  the end of the text, and no later read moves it, changes the buffer or feeds a line.
  With a parser that keeps its end of input every later read returns end-of-sequence
  too.  But finalize is not called once per provider: it has been called by then, and
  every later read that returns end-of-sequence calls it again, so that with such a
  parser \<open>n\<close> later reads make \<open>n\<close> more calls of it.
\<close>

theorem reads_after_end_of_sequence:
  assumes "provider_ok playlist0"
    and "Read (traced P) playlist0 = Inr (None, playlist)"
    and "reads (traced P) n playlist = Inr (songs, playlist')"
  shows "cuesheet playlist' = cuesheet playlist \<and>
         next_p playlist' = next_p playlist \<and>
         unconsumed playlist' = [] \<and>
         fed_lines (calls playlist') = fed_lines (calls playlist) \<and>
         1 \<le> count_list (calls playlist) CallFinish \<and>
         count_list (calls playlist) CallFinish + count_list songs None
           \<le> count_list (calls playlist') CallFinish \<and>
         (keeps_end_of_input P I \<longrightarrow>
            songs = replicate n None \<and>
            count_list (calls playlist') CallFinish
              = count_list (calls playlist) CallFinish + n)"
proof -
  from Read_ok [OF assms(1), of "traced P"] assms(2) have ok: "provider_ok playlist"
    by auto
  from Read_traced [OF assms(1,2)] obtain c0 where c0:
    "calls playlist = calls playlist0 @ c0" "count_list c0 CallFinish = 1"
    "unconsumed playlist = []"
    by auto
  from reads_traced [OF ok assms(3)] obtain ct where ct:
    "calls playlist' = calls playlist @ ct"
    "fed_lines ct @ split_lines (unconsumed playlist') = split_lines (unconsumed playlist)"
    "count_list songs None \<le> count_list ct CallFinish"
    by blast
  from ct(2) c0(3) have fed: "fed_lines ct = []" and rest: "split_lines (unconsumed playlist') = []"
    by (simp_all add: split_lines_Nil)
  from rest have "unconsumed playlist' = []"
    by (cases "unconsumed playlist' = []") (simp_all add: split_lines_nonempty)
  moreover from reads_at_end [OF ok c0(3) assms(3)]
  have "cuesheet playlist' = cuesheet playlist" "next_p playlist' = next_p playlist"
    by simp_all
  moreover have "fed_lines (calls playlist') = fed_lines (calls playlist)"
    using ct(1) fed by (simp add: fed_lines_append)
  moreover have "1 \<le> count_list (calls playlist) CallFinish"
    using c0(1,2) by simp
  moreover have "count_list (calls playlist) CallFinish + count_list songs None
      \<le> count_list (calls playlist') CallFinish"
    using ct(1,3) by simp
  moreover have "songs = replicate n None \<and>
      count_list (calls playlist') CallFinish = count_list (calls playlist) CallFinish + n"
    if keeps: "keeps_end_of_input P I"
  proof -
    from Read_end_state [OF assms(1,2)] obtain t p q where
      p: "parser playlist = Some (t, p)" and g: "Get P (Finish P q) = (None, p)"
      by blast
    from keeps g have i: "I p"
      unfolding keeps_end_of_input_def by blast
    from keeps have inv: "\<And>q. I q \<Longrightarrow> fst (Get P q) = None \<and> I (snd (Get P q)) \<and> I (Finish P q)"
      unfolding keeps_end_of_input_def by blast
    from reads_stay_at_end [OF ok c0(3) p i inv assms(3)] show ?thesis .
  qed
  ultimately show ?thesis by blast
qed

theorem reads_after_end_of_sequence_witness:
  "\<exists>playlist songs playlist'.
     provider_ok (opened (traced sample_parser) ''/music/album.flac'' ''REM no tracks'') \<and>
     Read (traced sample_parser)
       (opened (traced sample_parser) ''/music/album.flac'' ''REM no tracks'')
       = Inr (None, playlist) \<and>
     reads (traced sample_parser) 2 playlist = Inr (songs, playlist') \<and>
     keeps_end_of_input sample_parser
       (\<lambda>s. ended s \<and> previous s = None \<and> finished s = None) \<and>
     songs = [None, None] \<and>
     cuesheet playlist' = cuesheet playlist \<and> next_p playlist' = next_p playlist \<and>
     fed_lines (calls playlist') = fed_lines (calls playlist) \<and>
     1 \<le> count_list (calls playlist) CallFinish \<and>
     count_list (calls playlist') CallFinish = count_list (calls playlist) CallFinish + 2"
proof -
  let ?pl = "opened (traced sample_parser) ''/music/album.flac'' ''REM no tracks''"
  have ok: "provider_ok ?pl" by (rule opened_ok)
  from Read_ok [OF ok, of "traced sample_parser"] obtain r playlist where
    r0: "Read (traced sample_parser) ?pl = Inr (r, playlist)" and ok1: "provider_ok playlist"
    by blast
  have "map_sum id fst (Read (traced sample_parser) ?pl) = Inr None"
    by code_simp
  with r0 have r: "Read (traced sample_parser) ?pl = Inr (None, playlist)"
    by simp
  from reads_ok [OF ok1, of "traced sample_parser" 2] obtain songs playlist' where
    rs: "reads (traced sample_parser) 2 playlist = Inr (songs, playlist')"
    by blast
  note keeps = sample_parser_keeps_end
  from reads_after_end_of_sequence [OF ok r rs,
      of "\<lambda>s. ended s \<and> previous s = None \<and> finished s = None"] keeps
  have "cuesheet playlist' = cuesheet playlist" "next_p playlist' = next_p playlist"
    "fed_lines (calls playlist') = fed_lines (calls playlist)"
    "1 \<le> count_list (calls playlist) CallFinish"
    "songs = replicate 2 None"
    "count_list (calls playlist') CallFinish = count_list (calls playlist) CallFinish + 2"
    by blast+
  moreover have "replicate 2 None = [None, None]"
    by (simp add: numeral_2_eq_2)
  ultimately show ?thesis
    using ok r rs keeps by auto
qed

theorem finish_repeated_counterexample:
  "map_sum id (\<lambda>(songs, playlist'). (songs, count_list (calls playlist') CallFinish))
     (reads (traced sample_parser) 3
        (opened (traced sample_parser) ''/music/album.flac'' ''REM no tracks''))
   = Inr ([None, None, None], 3)"
  by code_simp

text \<open>
  C3, as the code has it.  For a provider as open returns it, after any number of reads
  the lines fed so far, followed by the lines of the text not yet consumed, are the
  lines of the captured text, cut at every single carriage return or line feed; once a
  read has returned end-of-sequence all of them have been fed.  No line holds a
  terminator, and a last line without terminator is the text after the last
  terminator.  A carriage return followed by a line feed is two terminators: the text
  with such line endings has the same non-empty lines, and an empty line more after
  each of them.
\<close>

theorem fed_lines_split_at_each_terminator:
  assumes "reads (traced P) n (opened (traced P) u v) = Inr (songs, playlist')"
  shows "fed_lines (calls playlist') @ split_lines (unconsumed playlist') = split_lines (c_str v) \<and>
         (None \<in> set songs \<longrightarrow> fed_lines (calls playlist') = split_lines (c_str v)) \<and>
         (\<forall>l\<in>set (split_lines (c_str v)). \<forall>c\<in>set l. \<not> is_eol c) \<and>
         (c_str v \<noteq> [] \<and> \<not> is_eol (last (c_str v)) \<longrightarrow>
            last (split_lines (c_str v)) = rev (takeWhile (\<lambda>c. \<not> is_eol c) (rev (c_str v)))) \<and>
         filter (\<lambda>l. l \<noteq> []) (split_lines (c_str (to_crlf v)))
           = filter (\<lambda>l. l \<noteq> []) (split_lines (c_str v))"
proof -
  from reads_traced [OF opened_ok assms] obtain ct where ct:
    "calls playlist' = ct"
    "fed_lines ct @ split_lines (unconsumed playlist') = split_lines (c_str v)"
    "None \<in> set songs \<longrightarrow> unconsumed playlist' = []"
    unfolding calls_opened unconsumed_opened by auto
  have "fed_lines (calls playlist') @ split_lines (unconsumed playlist') = split_lines (c_str v)"
    using ct(1,2) by simp
  moreover have "None \<in> set songs \<longrightarrow> fed_lines (calls playlist') = split_lines (c_str v)"
    using ct by (auto simp: split_lines_Nil)
  moreover have "\<forall>l\<in>set (split_lines (c_str v)). \<forall>c\<in>set l. \<not> is_eol c"
    by (blast dest: split_lines_no_eol)
  moreover have "c_str v \<noteq> [] \<and> \<not> is_eol (last (c_str v)) \<longrightarrow>
            last (split_lines (c_str v)) = rev (takeWhile (\<lambda>c. \<not> is_eol c) (rev (c_str v)))"
    using split_lines_unterminated [of "c_str v"] by blast
  moreover have "filter (\<lambda>l. l \<noteq> []) (split_lines (c_str (to_crlf v)))
           = filter (\<lambda>l. l \<noteq> []) (split_lines (c_str v))"
    by (simp add: c_str_to_crlf nonempty_lines_to_crlf)
  ultimately show ?thesis by blast
qed

theorem fed_lines_split_at_each_terminator_witness:
  "\<exists>songs playlist'.
     reads (traced sample_parser) 3 (opened (traced sample_parser) ''/music/album.flac'' sample_sheet)
       = Inr (songs, playlist') \<and>
     None \<in> set songs \<and>
     c_str sample_sheet \<noteq> [] \<and> \<not> is_eol (last (c_str sample_sheet)) \<and>
     fed_lines (calls playlist') = [''FILE cd.wav'', ''TRACK 01'', [], ''TRACK 02'', ''REM end''] \<and>
     last (split_lines (c_str sample_sheet)) = ''REM end'' \<and>
     filter (\<lambda>l. l \<noteq> []) (split_lines (c_str (to_crlf sample_sheet)))
       = [''FILE cd.wav'', ''TRACK 01'', ''TRACK 02'', ''REM end'']"
proof -
  let ?pl = "opened (traced sample_parser) ''/music/album.flac'' sample_sheet"
  from reads_ok [OF opened_ok, of "traced sample_parser" 3] obtain songs playlist' where
    rs: "reads (traced sample_parser) 3 ?pl = Inr (songs, playlist')"
    by blast
  have "map_sum id fst (reads (traced sample_parser) 3 ?pl)
      = Inr [Some \<lparr>uri = ''album.flac'', track = ''01''\<rparr>,
             Some \<lparr>uri = ''cd.wav'', track = ''02''\<rparr>, None]"
    by code_simp
  with rs have n: "None \<in> set songs" by auto
  have sl: "split_lines (c_str sample_sheet)
      = [''FILE cd.wav'', ''TRACK 01'', [], ''TRACK 02'', ''REM end'']"
    by code_simp
  have ne: "c_str sample_sheet \<noteq> []" and le: "\<not> is_eol (last (c_str sample_sheet))"
    by code_simp+
  have tl: "rev (takeWhile (\<lambda>c. \<not> is_eol c) (rev (c_str sample_sheet))) = ''REM end''"
    by code_simp
  from fed_lines_split_at_each_terminator [OF rs] n ne le
  have "fed_lines (calls playlist') = split_lines (c_str sample_sheet)"
    and "last (split_lines (c_str sample_sheet))
           = rev (takeWhile (\<lambda>c. \<not> is_eol c) (rev (c_str sample_sheet)))"
    and "filter (\<lambda>l. l \<noteq> []) (split_lines (c_str (to_crlf sample_sheet)))
           = filter (\<lambda>l. l \<noteq> []) (split_lines (c_str sample_sheet))"
    by blast+
  with rs n ne le sl tl show ?thesis
    by simp
qed

theorem crlf_extra_line_counterexample:
  "map_sum id (\<lambda>(songs, playlist'). fed_lines (calls playlist'))
     (reads (traced sample_parser) 1
        (opened (traced sample_parser) ''/music/album.flac''
           (''TRACK 01'' @ [CR, LF] @ ''TRACK 02'')))
   = Inr [''TRACK 01'', [], ''TRACK 02''] \<and>
   map_sum id (\<lambda>(songs, playlist'). fed_lines (calls playlist'))
     (reads (traced sample_parser) 1
        (opened (traced sample_parser) ''/music/album.flac''
           (''TRACK 01'' @ [LF] @ ''TRACK 02'')))
   = Inr [''TRACK 01'', ''TRACK 02'']"
  by code_simp

end
